theory Spec2Isabelle
  imports Complex_Main "HOL-Library.Word" "HOL-Library.Log_Nat" "HOL-Library.Monad_Syntax"
begin

unbundle bit_operations_syntax

section \<open>Constants of charrain.c\<close>

definition BITMASK_ASCII :: "32 word" where "BITMASK_ASCII = 0x00FF"
definition BITMASK_STATE :: "32 word" where "BITMASK_STATE = 0x0300"
definition BITMASK_TSIZE :: "32 word" where "BITMASK_TSIZE = 0xFC00"

definition STATE_NONE :: "8 word" where "STATE_NONE = 0"
definition STATE_DROP :: "8 word" where "STATE_DROP = 1"
definition STATE_TAIL :: "8 word" where "STATE_TAIL = 2"

definition TSIZE_MIN :: int where "TSIZE_MIN = 8"
definition TSIZE_MAX :: int where "TSIZE_MAX = 63"

definition ASCII_MIN :: int where "ASCII_MIN = 32"
definition ASCII_MAX :: int where "ASCII_MAX = 126"

definition colors :: "8 word list" where
  "colors = [231, 48, 41, 35, 29, 238]"

text \<open>\<^verbatim>\<open>NUM_COLORS\<close> is \<^verbatim>\<open>sizeof(colors) / sizeof(colors[0])\<close>, the number of palette entries.\<close>

definition NUM_COLORS :: nat where
  "NUM_COLORS = length colors"

section \<open>C arithmetic\<close>

text \<open>
  A computation that has no defined result in C (a signed overflow, a remainder by zero, a
  conversion of an out-of-range or non-finite floating value to an integer, an access outside
  the cell buffer) or that does not return is the value \<open>None\<close>.
\<close>

definition c_int :: "int \<Rightarrow> int option" where
  "c_int i = (if - (2 ^ 31) \<le> i \<and> i < 2 ^ 31 then Some i else None)"

text \<open>The operator \<^verbatim>\<open>%\<close> truncates towards zero.\<close>

definition c_rem :: "int \<Rightarrow> int \<Rightarrow> int option" where
  "c_rem a b = (if b = 0 then None else Some (sgn a * (\<bar>a\<bar> mod \<bar>b\<bar>)))"

subsection \<open>Single precision\<close>

text \<open>
  A finite \<^verbatim>\<open>float\<close> is the rational number it denotes. Every single-precision result
  is the exact result rounded to 24 significant bits, to nearest with ties to even
  (IEEE 754 binary32, exponent not below \<open>-126\<close>). Overflow to infinity is not
  represented: a value that large is outside the range of every integer conversion below,
  which is then \<open>None\<close> either way.
\<close>

definition rne :: "rat \<Rightarrow> int" where
  "rne y = (let f = \<lfloor>y\<rfloor>; r = y - of_int f
            in if r < 1 / 2 then f else if 1 / 2 < r then f + 1
               else if even f then f else f + 1)"

definition float_exp :: "rat \<Rightarrow> int" where
  "float_exp x = (let (p, q) = quotient_of \<bar>x\<bar>; d = bitlen p - bitlen q;
                      e = (if 2 powi d \<le> \<bar>x\<bar> then d else d - 1)
                  in max e (- 126))"

definition to_float :: "rat \<Rightarrow> rat" where
  "to_float x = (if x = 0 then 0
                 else let u = 2 powi (float_exp x - 23) in of_int (rne (x / u)) * u)"

definition int_to_float :: "int \<Rightarrow> rat" where
  "int_to_float i = to_float (of_int i)"

definition float_mul :: "rat \<Rightarrow> rat \<Rightarrow> rat" where
  "float_mul a b = to_float (a * b)"

text \<open>A division by zero gives an infinity or a NaN, which no later conversion accepts.\<close>

definition float_div :: "rat \<Rightarrow> rat \<Rightarrow> rat option" where
  "float_div a b = (if b = 0 then None else Some (to_float (a / b)))"

definition trunc :: "rat \<Rightarrow> int" where
  "trunc x = (if 0 \<le> x then \<lfloor>x\<rfloor> else \<lceil>x\<rceil>)"

definition float_to_int :: "rat \<Rightarrow> int option" where
  "float_to_int x = c_int (trunc x)"

definition float_to_size_t :: "rat \<Rightarrow> 64 word option" where
  "float_to_size_t x = (let t = trunc x in if 0 \<le> t \<and> t < 2 ^ 64 then Some (word_of_int t) else None)"

section \<open>The random number generator\<close>

text \<open>
  The outputs of \<^verbatim>\<open>rand()\<close> are a sequence \<open>rs\<close> of naturals, fixed by the seed; the
  state of the generator is the number \<open>k\<close> of values drawn so far.
\<close>

type_synonym rng = "nat \<Rightarrow> nat"

definition rand_int :: "int \<Rightarrow> int \<Rightarrow> rng \<Rightarrow> nat \<Rightarrow> (int \<times> nat) option" where
  "rand_int mn mx rs k = do {
     r \<leftarrow> c_rem (int (rs k)) ((mx + 1) - mn);
     Some (mn + r, Suc k)
   }"

definition rand_int_mincap :: "int \<Rightarrow> int \<Rightarrow> rng \<Rightarrow> nat \<Rightarrow> (int \<times> nat) option" where
  "rand_int_mincap mn mx rs k = do {
     r \<leftarrow> c_rem (int (rs k)) mx;
     Some (if r < mn then mn else r, Suc k)
   }"

definition rand_ascii :: "rng \<Rightarrow> nat \<Rightarrow> (8 word \<times> nat) option" where
  "rand_ascii rs k = do {
     (r, k') \<leftarrow> rand_int_mincap ASCII_MIN ASCII_MAX rs k;
     Some (word_of_int r, k')
   }"

section \<open>Cell values\<close>

text \<open>The \<^verbatim>\<open>uint8_t\<close> arguments are promoted to \<^verbatim>\<open>int\<close>; the result is cut to 16 bits.\<close>

definition val_new :: "8 word \<Rightarrow> 8 word \<Rightarrow> 8 word \<Rightarrow> 16 word" where
  "val_new ascii state tsize =
     ucast ((BITMASK_TSIZE AND push_bit 10 (ucast tsize :: 32 word))
            OR (BITMASK_STATE AND push_bit 8 (ucast state :: 32 word))
            OR (ucast ascii :: 32 word))"

definition val_get_ascii :: "16 word \<Rightarrow> 8 word" where
  "val_get_ascii v = ucast ((ucast v :: 32 word) AND BITMASK_ASCII)"

definition val_get_state :: "16 word \<Rightarrow> 8 word" where
  "val_get_state v = ucast (drop_bit 8 ((ucast v :: 32 word) AND BITMASK_STATE))"

definition val_get_tsize :: "16 word \<Rightarrow> 8 word" where
  "val_get_tsize v = ucast (drop_bit 10 ((ucast v :: 32 word) AND BITMASK_TSIZE))"

section \<open>The matrix\<close>

text \<open>
  \<open>data\<close> holds the \<open>rows * cols\<close> cells of the grid in row-major order; the slack that
  \<^verbatim>\<open>mat_init\<close> allocates behind them (it multiplies by the size of a pointer) is never
  addressed by a row below \<open>rows\<close> and a column below \<open>cols\<close>.
\<close>

record matrix_s =
  data :: "16 word list"
  cols :: "16 word"
  rows :: "16 word"
  drop_count :: "64 word"
  drop_ratio :: rat

definition buf_read :: "16 word list \<Rightarrow> int \<Rightarrow> 16 word option" where
  "buf_read d i = (if 0 \<le> i \<and> i < int (length d) then Some (d ! nat i) else None)"

definition buf_write :: "16 word list \<Rightarrow> int \<Rightarrow> 16 word \<Rightarrow> 16 word list option" where
  "buf_write d i v = (if 0 \<le> i \<and> i < int (length d) then Some (d[nat i := v]) else None)"

definition mat_idx :: "matrix_s \<Rightarrow> int \<Rightarrow> int \<Rightarrow> int option" where
  "mat_idx m row col = do {
     p \<leftarrow> c_int (row * uint (cols m));
     c_int (p + col)
   }"

definition mat_get_value :: "matrix_s \<Rightarrow> int \<Rightarrow> int \<Rightarrow> 16 word option" where
  "mat_get_value m row col =
     (if row \<ge> uint (rows m) then Some 0
      else if col \<ge> uint (cols m) then Some 0
      else do { i \<leftarrow> mat_idx m row col; buf_read (data m) i })"

definition mat_get_ascii :: "matrix_s \<Rightarrow> int \<Rightarrow> int \<Rightarrow> 8 word option" where
  "mat_get_ascii m row col = map_option val_get_ascii (mat_get_value m row col)"

definition mat_get_state :: "matrix_s \<Rightarrow> int \<Rightarrow> int \<Rightarrow> 8 word option" where
  "mat_get_state m row col = map_option val_get_state (mat_get_value m row col)"

definition mat_get_tsize :: "matrix_s \<Rightarrow> int \<Rightarrow> int \<Rightarrow> 8 word option" where
  "mat_get_tsize m row col = map_option val_get_tsize (mat_get_value m row col)"

text \<open>No caller reads the \<^verbatim>\<open>uint8_t\<close> that the setters return; the model returns the matrix.\<close>

definition mat_set_value :: "matrix_s \<Rightarrow> int \<Rightarrow> int \<Rightarrow> 16 word \<Rightarrow> matrix_s option" where
  "mat_set_value m row col v =
     (if row \<ge> uint (rows m) then Some m
      else if col \<ge> uint (cols m) then Some m
      else do {
        i \<leftarrow> mat_idx m row col;
        d \<leftarrow> buf_write (data m) i v;
        Some (m\<lparr>data := d\<rparr>)
      })"

definition mat_set_ascii :: "matrix_s \<Rightarrow> int \<Rightarrow> int \<Rightarrow> 8 word \<Rightarrow> matrix_s option" where
  "mat_set_ascii m row col ascii = do {
     v \<leftarrow> mat_get_value m row col;
     mat_set_value m row col (val_new ascii (val_get_state v) (val_get_tsize v))
   }"

definition mat_set_state :: "matrix_s \<Rightarrow> int \<Rightarrow> int \<Rightarrow> 8 word \<Rightarrow> matrix_s option" where
  "mat_set_state m row col state = do {
     v \<leftarrow> mat_get_value m row col;
     let tsize = (if state = STATE_NONE then 0 else val_get_tsize v);
     mat_set_value m row col (val_new (val_get_ascii v) state tsize)
   }"

definition mat_set_tsize :: "matrix_s \<Rightarrow> int \<Rightarrow> int \<Rightarrow> 8 word \<Rightarrow> matrix_s option" where
  "mat_set_tsize m row col tsize = do {
     v \<leftarrow> mat_get_value m row col;
     mat_set_value m row col (val_new (val_get_ascii v) (val_get_state v) tsize)
   }"

subsection \<open>Glitches\<close>

function mat_glitch_loop ::
  "matrix_s \<Rightarrow> rng \<Rightarrow> nat \<Rightarrow> int \<Rightarrow> int \<Rightarrow> (matrix_s \<times> nat) option" where
  "mat_glitch_loop m rs k num i =
     (if i < num then do {
        row \<leftarrow> c_rem (int (rs k)) (uint (rows m));
        col \<leftarrow> c_rem (int (rs (Suc k))) (uint (cols m));
        (a, k') \<leftarrow> rand_ascii rs (Suc (Suc k));
        m' \<leftarrow> mat_set_ascii m row col a;
        mat_glitch_loop m' rs k' num (i + 1)
      } else Some (m, k))"
  by pat_completeness auto
termination
  by (relation "measure (\<lambda>(m, rs, k, num, i). nat (num - i))") auto

text \<open>\<^verbatim>\<open>num\<close>, as \<^verbatim>\<open>mat_glitch\<close> computes it before its loop.\<close>

definition mat_glitch_num :: "matrix_s \<Rightarrow> rat \<Rightarrow> int option" where
  "mat_glitch_num m fraction = do {
     size \<leftarrow> c_int (uint (rows m) * uint (cols m));
     float_to_int (float_mul fraction (int_to_float size))
   }"

definition mat_glitch :: "matrix_s \<Rightarrow> rat \<Rightarrow> rng \<Rightarrow> nat \<Rightarrow> (matrix_s \<times> nat) option" where
  "mat_glitch m fraction rs k = do {
     num \<leftarrow> mat_glitch_num m fraction;
     mat_glitch_loop m rs k num 0
   }"

subsection \<open>Drops and tails\<close>

definition mat_put_cell_drop :: "matrix_s \<Rightarrow> int \<Rightarrow> int \<Rightarrow> int \<Rightarrow> matrix_s option" where
  "mat_put_cell_drop m row col tsize = do {
     m' \<leftarrow> mat_set_state m row col STATE_DROP;
     mat_set_tsize m' row col (word_of_int tsize)
   }"

definition mat_put_cell_tail :: "matrix_s \<Rightarrow> int \<Rightarrow> int \<Rightarrow> int \<Rightarrow> int \<Rightarrow> matrix_s option" where
  "mat_put_cell_tail m row col tsize tnext = do {
     intensity \<leftarrow> float_div (int_to_float tnext) (int_to_float tsize);
     color \<leftarrow> c_int \<lceil>float_mul (int_to_float (int NUM_COLORS - 1)) intensity\<rceil>;
     m' \<leftarrow> mat_set_state m row col STATE_TAIL;
     mat_set_tsize m' row col (word_of_int color)
   }"

function mat_add_drop_loop ::
  "matrix_s \<Rightarrow> int \<Rightarrow> int \<Rightarrow> int \<Rightarrow> int \<Rightarrow> matrix_s option" where
  "mat_add_drop_loop m row col tsize i =
     (if i \<le> tsize then
        (if row < 0 then Some m
         else if row \<ge> uint (rows m) then mat_add_drop_loop m (row - 1) col tsize (i + 1)
         else if i = 0 then do {
           m' \<leftarrow> mat_put_cell_drop m row col tsize;
           mat_add_drop_loop (m'\<lparr>drop_count := drop_count m' + 1\<rparr>) (row - 1) col tsize (i + 1)
         }
         else do {
           m' \<leftarrow> mat_put_cell_tail m row col tsize i;
           mat_add_drop_loop m' (row - 1) col tsize (i + 1)
         })
      else Some m)"
  by pat_completeness auto
termination
  by (relation "measure (\<lambda>(m, row, col, tsize, i). nat (tsize + 1 - i))") auto

definition mat_add_drop :: "matrix_s \<Rightarrow> int \<Rightarrow> int \<Rightarrow> int \<Rightarrow> matrix_s option" where
  "mat_add_drop m row col tsize = mat_add_drop_loop m row col tsize 0"

function mat_rain_loop ::
  "matrix_s \<Rightarrow> rng \<Rightarrow> nat \<Rightarrow> int \<Rightarrow> int \<Rightarrow> (matrix_s \<times> nat) option" where
  "mat_rain_loop m rs k num i =
     (if i < num then do {
        (c, k1) \<leftarrow> rand_int 0 (uint (cols m) - 1) rs k;
        (r, k2) \<leftarrow> rand_int 0 (uint (rows m) - 1) rs k1;
        (t, k3) \<leftarrow> rand_int TSIZE_MIN TSIZE_MAX rs k2;
        m' \<leftarrow> mat_add_drop m r c t;
        mat_rain_loop m' rs k3 num (i + 1)
      } else Some (m, k))"
  by pat_completeness auto
termination
  by (relation "measure (\<lambda>(m, rs, k, num, i). nat (num - i))") auto

definition mat_rain :: "matrix_s \<Rightarrow> rng \<Rightarrow> nat \<Rightarrow> (matrix_s \<times> nat) option" where
  "mat_rain m rs k = do {
     cells \<leftarrow> c_int (uint (cols m) * uint (rows m));
     num \<leftarrow> float_to_int (float_mul (int_to_float cells) (drop_ratio m));
     mat_rain_loop m rs k num 0
   }"

subsection \<open>Moving a column down\<close>

text \<open>
  The loop of \<^verbatim>\<open>mat_mov_col\<close>: its state is the matrix and the locals \<^verbatim>\<open>tail_size\<close>,
  \<^verbatim>\<open>tail_seen\<close> and \<^verbatim>\<open>state\<close>, which the code reads after the loop.
\<close>

function mat_mov_col_loop ::
  "matrix_s \<Rightarrow> int \<Rightarrow> int \<Rightarrow> 8 word \<Rightarrow> 8 word \<Rightarrow> 8 word
     \<Rightarrow> (matrix_s \<times> 8 word \<times> 8 word \<times> 8 word) option" where
  "mat_mov_col_loop m col row tail_size tail_seen state0 =
     (if row \<ge> 0 then do {
        v \<leftarrow> mat_get_value m row col;
        let state = val_get_state v;
        let tsize = val_get_tsize v;
        if state = STATE_NONE then mat_mov_col_loop m col (row - 1) tail_size tail_seen state
        else do {
          m1 \<leftarrow> mat_set_state m (row + 1) col state;
          m2 \<leftarrow> mat_set_tsize m1 (row + 1) col tsize;
          m3 \<leftarrow> mat_set_state m2 row col STATE_NONE;
          m4 \<leftarrow> mat_set_tsize m3 row col 0;
          if state = STATE_DROP then mat_mov_col_loop m4 col (row - 1) tsize 0 state
          else if state = STATE_TAIL \<and> tail_size > 0
            then mat_mov_col_loop m4 col (row - 1) tail_size (tail_seen + 1) state
          else mat_mov_col_loop m4 col (row - 1) tail_size tail_seen state
        }
      } else Some (m, tail_size, tail_seen, state0))"
  by pat_completeness auto
termination
  by (relation "measure (\<lambda>(m, col, row, tail_size, tail_seen, state0). nat (row + 1))") auto

definition mat_mov_col :: "matrix_s \<Rightarrow> int \<Rightarrow> (matrix_s \<times> int) option" where
  "mat_mov_col m col = do {
     s \<leftarrow> mat_get_state m (uint (rows m) - 1) col;
     let dropped = (if s = STATE_DROP then 1 else 0);
     (m', tail_size, tail_seen, state) \<leftarrow>
        mat_mov_col_loop m col (uint (rows m) - 1) 0 0 STATE_NONE;
     m'' \<leftarrow> (if state \<noteq> STATE_NONE \<and> tail_seen < tail_size
             then mat_put_cell_tail m' 0 col (uint tail_size) (uint tail_seen + 1)
             else Some m');
     Some (m'', dropped)
   }"

subsection \<open>One tick\<close>

text \<open>
  \<^verbatim>\<open>drops_desired\<close> and \<^verbatim>\<open>drops_to_add\<close>, as \<^verbatim>\<open>mat_update\<close> computes them before its
  first loop. \<^verbatim>\<open>drops_missing\<close> is a \<^verbatim>\<open>size_t\<close>: the subtraction wraps around.
\<close>

definition mat_update_drops_desired :: "matrix_s \<Rightarrow> 64 word option" where
  "mat_update_drops_desired m = do {
     cells \<leftarrow> c_int (uint (cols m) * uint (rows m));
     float_to_size_t (float_mul (int_to_float cells) (drop_ratio m))
   }"

definition mat_update_drops_to_add :: "matrix_s \<Rightarrow> 64 word option" where
  "mat_update_drops_to_add m = do {
     drops_desired \<leftarrow> mat_update_drops_desired m;
     let drops_missing = drops_desired - drop_count m;
     q \<leftarrow> float_div (to_float (of_int (uint drops_missing))) (int_to_float (uint (rows m)));
     float_to_size_t q
   }"

text \<open>The first loop of \<^verbatim>\<open>mat_update\<close>, with the number of iterations left.\<close>

fun mat_update_spawn :: "matrix_s \<Rightarrow> rng \<Rightarrow> nat \<Rightarrow> nat \<Rightarrow> (matrix_s \<times> nat) option" where
  "mat_update_spawn m rs k 0 = Some (m, k)"
| "mat_update_spawn m rs k (Suc n) = do {
     (col, k1) \<leftarrow> rand_int 0 (uint (cols m) - 1) rs k;
     (t, k2) \<leftarrow> rand_int TSIZE_MIN TSIZE_MAX rs k1;
     m' \<leftarrow> mat_add_drop m 0 col t;
     mat_update_spawn m' rs k2 n
   }"

text \<open>The second loop of \<^verbatim>\<open>mat_update\<close>.\<close>

function mat_update_advance :: "matrix_s \<Rightarrow> int \<Rightarrow> matrix_s option" where
  "mat_update_advance m col =
     (if col < uint (cols m) then do {
        (m', dropped) \<leftarrow> mat_mov_col m col;
        mat_update_advance (m'\<lparr>drop_count := drop_count m' - word_of_int dropped\<rparr>) (col + 1)
      } else Some m)"
  by pat_completeness auto
termination
proof (relation "measure (\<lambda>(m, col). nat (65536 - col))")
  fix m :: matrix_s and col :: int and x y z
  assume "col < uint (cols m)"
  moreover have "uint (cols m) < 65536"
    using uint_lt2p [of "cols m"] by simp
  ultimately show "((z\<lparr>drop_count := drop_count z - word_of_int y\<rparr>, col + 1), (m, col))
      \<in> measure (\<lambda>(m, col). nat (65536 - col))"
    by simp
qed simp

text \<open>
  The counter \<^verbatim>\<open>i\<close> of the first loop is a \<^verbatim>\<open>size_t\<close> and the loop runs while
  \<^verbatim>\<open>i <= drops_to_add\<close>: \<open>drops_to_add + 1\<close> times, and for ever when \<open>drops_to_add\<close> is
  the largest \<^verbatim>\<open>size_t\<close>.
\<close>

definition mat_update_attempts :: "matrix_s \<Rightarrow> nat option" where
  "mat_update_attempts m = do {
     drops_to_add \<leftarrow> mat_update_drops_to_add m;
     if drops_to_add = - 1 then None else Some (Suc (unat drops_to_add))
   }"

definition mat_update :: "matrix_s \<Rightarrow> rng \<Rightarrow> nat \<Rightarrow> (matrix_s \<times> nat) option" where
  "mat_update m rs k = do {
     n \<leftarrow> mat_update_attempts m;
     (m1, k1) \<leftarrow> mat_update_spawn m rs k n;
     m2 \<leftarrow> mat_update_advance m1 0;
     Some (m2, k1)
   }"

subsection \<open>Filling and creating\<close>

function mat_fill_cols ::
  "matrix_s \<Rightarrow> int \<Rightarrow> int \<Rightarrow> rng \<Rightarrow> nat \<Rightarrow> (matrix_s \<times> nat) option" where
  "mat_fill_cols m r c rs k =
     (if c < uint (cols m) then do {
        m1 \<leftarrow> mat_set_state m r c STATE_NONE;
        (a, k') \<leftarrow> rand_ascii rs k;
        m2 \<leftarrow> mat_set_ascii m1 r c a;
        mat_fill_cols m2 r (c + 1) rs k'
      } else Some (m, k))"
  by pat_completeness auto
termination
proof (relation "measure (\<lambda>(m, r, c, rs, k). nat (65536 - c))")
  fix m :: matrix_s and r c :: int and rs :: rng and k :: nat and m1 x y z m2
  assume "c < uint (cols m)"
  moreover have "uint (cols m) < 65536"
    using uint_lt2p [of "cols m"] by simp
  ultimately show "((m2, r, c + 1, rs, z), (m, r, c, rs, k))
      \<in> measure (\<lambda>(m, r, c, rs, k). nat (65536 - c))"
    by simp
qed simp

function mat_fill_rows :: "matrix_s \<Rightarrow> int \<Rightarrow> rng \<Rightarrow> nat \<Rightarrow> (matrix_s \<times> nat) option" where
  "mat_fill_rows m r rs k =
     (if r < uint (rows m) then do {
        (m', k') \<leftarrow> mat_fill_cols m r 0 rs k;
        mat_fill_rows m' (r + 1) rs k'
      } else Some (m, k))"
  by pat_completeness auto
termination
proof (relation "measure (\<lambda>(m, r, rs, k). nat (65536 - r))")
  fix m :: matrix_s and r :: int and rs :: rng and k :: nat and x m' k'
  assume "r < uint (rows m)"
  moreover have "uint (rows m) < 65536"
    using uint_lt2p [of "rows m"] by simp
  ultimately show "((m', r + 1, rs, k'), (m, r, rs, k))
      \<in> measure (\<lambda>(m, r, rs, k). nat (65536 - r))"
    by simp
qed simp

definition mat_fill :: "matrix_s \<Rightarrow> rng \<Rightarrow> nat \<Rightarrow> (matrix_s \<times> nat) option" where
  "mat_fill m rs k = mat_fill_rows m 0 rs k"

text \<open>
  \<^verbatim>\<open>mat_init\<close> takes what \<^verbatim>\<open>realloc\<close> returns: no buffer, or a buffer of cells with
  arbitrary contents.
\<close>

definition mat_init ::
  "matrix_s \<Rightarrow> 16 word \<Rightarrow> 16 word \<Rightarrow> rat \<Rightarrow> 16 word list option \<Rightarrow> matrix_s \<times> int" where
  "mat_init m nrows ncols ratio buf =
     (case buf of
        None \<Rightarrow> (m\<lparr>data := []\<rparr>, - 1)
      | Some d \<Rightarrow> (m\<lparr>data := d, rows := nrows, cols := ncols,
                      drop_count := 0, drop_ratio := ratio\<rparr>, 0))"


section \<open>Well-formed matrices and what is counted in them\<close>

text \<open>
  The buffer holds exactly the cells of the grid, and their number fits an \<^verbatim>\<open>int\<close>, which
  \<^verbatim>\<open>mat_idx\<close> and the cell counts of \<^verbatim>\<open>mat_glitch\<close>, \<^verbatim>\<open>mat_rain\<close> and \<^verbatim>\<open>mat_update\<close> rely on.
\<close>

definition matrix_ok :: "matrix_s \<Rightarrow> bool" where
  "matrix_ok m \<longleftrightarrow>
     length (data m) = unat (rows m) * unat (cols m) \<and> unat (rows m) * unat (cols m) < 2 ^ 31"

definition count_drops :: "matrix_s \<Rightarrow> nat" where
  "count_drops m = length (filter (\<lambda>v. val_get_state v = STATE_DROP) (data m))"

text \<open>
  The three field setters read a cell and write it back changed: \<open>mat_upd\<close> is that
  pattern, with the change as a function. \<open>cell_idx\<close> is the buffer index of a coordinate
  and \<open>in_grid\<close> says that the coordinate is one of the grid.
\<close>

definition mat_upd :: "matrix_s \<Rightarrow> int \<Rightarrow> int \<Rightarrow> (16 word \<Rightarrow> 16 word) \<Rightarrow> matrix_s option" where
  "mat_upd m row col f = do {
     v \<leftarrow> mat_get_value m row col;
     mat_set_value m row col (f v)
   }"

definition cell_idx :: "matrix_s \<Rightarrow> int \<Rightarrow> int \<Rightarrow> nat" where
  "cell_idx m row col = nat (row * uint (cols m) + col)"

definition in_grid :: "matrix_s \<Rightarrow> int \<Rightarrow> int \<Rightarrow> bool" where
  "in_grid m row col \<longleftrightarrow> 0 \<le> row \<and> row < uint (rows m) \<and> 0 \<le> col \<and> col < uint (cols m)"

text \<open>The equations of the loops are unfolded by hand, never by the simplifier on its own.\<close>

declare mat_glitch_loop.simps [simp del]
declare mat_add_drop_loop.simps [simp del]
declare mat_rain_loop.simps [simp del]
declare mat_mov_col_loop.simps [simp del]
declare mat_update_advance.simps [simp del]
declare mat_fill_cols.simps [simp del]
declare mat_fill_rows.simps [simp del]

text \<open>An empty grid of 10 rows and 1 column: every cell is NONE, with the characters \<open>cs\<close>.\<close>

definition grid_10x1 :: "8 word list \<Rightarrow> matrix_s" where
  "grid_10x1 cs = \<lparr>data = map (\<lambda>c. val_new c STATE_NONE 0) cs, cols = 1, rows = 10,
                    drop_count = 0, drop_ratio = 1 / 16\<rparr>"

text \<open>
  The number of spawn attempts of one tick in the words of the specification: the target is
  the product of the cell count and the ratio, rounded to the nearest integer.
\<close>

definition spec_drops_target :: "matrix_s \<Rightarrow> int" where
  "spec_drops_target m = round (of_int (uint (rows m)) * of_int (uint (cols m)) * drop_ratio m)"

definition spec_spawn_attempts :: "matrix_s \<Rightarrow> int" where
  "spec_spawn_attempts m =
     \<lfloor>(of_int (spec_drops_target m - uint (drop_count m)) :: rat) / of_int (uint (rows m))\<rfloor> + 1"

text \<open>Empty grids (every cell a NONE blank) of the given size, drop count and ratio.\<close>

definition blank_grid :: "16 word \<Rightarrow> 16 word \<Rightarrow> 64 word \<Rightarrow> rat \<Rightarrow> matrix_s" where
  "blank_grid nrows ncols count ratio =
     \<lparr>data = replicate (unat nrows * unat ncols) (val_new 32 STATE_NONE 0),
      cols = ncols, rows = nrows, drop_count = count, drop_ratio = ratio\<rparr>"

text \<open>
  \<open>rand_ascii_of r\<close> is the character that \<^verbatim>\<open>rand_ascii\<close> returns when \<^verbatim>\<open>rand()\<close> returns \<open>r\<close>.
  The character depends on \<open>r\<close> modulo 126 only; \<open>ascii_hits a\<close> counts, among the 126
  residues, those that give the character \<open>a\<close>.
\<close>

definition rand_ascii_of :: "nat \<Rightarrow> 8 word option" where
  "rand_ascii_of r = map_option fst (rand_ascii (\<lambda>_. r) 0)"

definition ascii_hits :: "8 word \<Rightarrow> nat" where
  "ascii_hits a = length (filter (\<lambda>r. rand_ascii_of r = Some a) [0..<126])"

text \<open>The number of glitches in the words of the specification.\<close>

definition spec_glitch_count :: "matrix_s \<Rightarrow> rat \<Rightarrow> int" where
  "spec_glitch_count m fraction = \<lfloor>fraction * of_int (uint (rows m)) * of_int (uint (cols m))\<rfloor>"

text \<open>The invariant of the cells: a NONE cell has the tail size 0.\<close>

definition cell_inv :: "matrix_s \<Rightarrow> bool" where
  "cell_inv m \<longleftrightarrow> (\<forall>v \<in> set (data m). val_get_state v = STATE_NONE \<longrightarrow> val_get_tsize v = 0)"

text \<open>
  The matrices that the program can hold between two operations: \<^verbatim>\<open>main\<close> creates and
  fills the matrix at the start and after every resize, where it also calls \<^verbatim>\<open>mat_rain\<close>,
  and then alternates \<^verbatim>\<open>mat_glitch\<close> and \<^verbatim>\<open>mat_update\<close>. A placement (\<^verbatim>\<open>mat_add_drop\<close>) and
  the advance of all columns (the second loop of \<^verbatim>\<open>mat_update\<close>) are steps of their own
  here, for any arguments, and so are the random numbers and the arguments of every call.
\<close>

inductive reachable :: "matrix_s \<Rightarrow> bool" where
  created: "mat_init m0 nrows ncols ratio (Some buf) = (m1, 0)
      \<Longrightarrow> length buf = unat nrows * unat ncols \<Longrightarrow> unat nrows * unat ncols < 2 ^ 31
      \<Longrightarrow> mat_fill m1 rs k = Some (m, k') \<Longrightarrow> reachable m"
| rained: "reachable m \<Longrightarrow> mat_rain m rs k = Some (m', k') \<Longrightarrow> reachable m'"
| glitched: "reachable m \<Longrightarrow> mat_glitch m fraction rs k = Some (m', k') \<Longrightarrow> reachable m'"
| updated: "reachable m \<Longrightarrow> mat_update m rs k = Some (m', k') \<Longrightarrow> reachable m'"
| placed: "reachable m \<Longrightarrow> mat_add_drop m row col tsize = Some m' \<Longrightarrow> reachable m'"
| advanced: "reachable m \<Longrightarrow> mat_update_advance m 0 = Some m' \<Longrightarrow> reachable m'"

text \<open>
  Two grids of 2 rows and 2 columns: as \<^verbatim>\<open>mat_fill\<close> leaves it when \<^verbatim>\<open>rand()\<close> returns 30, 125,
  220 and 315, and then with a drop of tail length 8 placed at row 1 of column 0.
\<close>

definition grid_filled :: matrix_s where
  "grid_filled = \<lparr>data = [val_new 32 STATE_NONE 0, val_new 125 STATE_NONE 0,
                          val_new 94 STATE_NONE 0, val_new 63 STATE_NONE 0],
                  cols = 2, rows = 2, drop_count = 0, drop_ratio = 1 / 16\<rparr>"

definition grid_placed :: matrix_s where
  "grid_placed = \<lparr>data = [val_new 32 STATE_TAIL 1, val_new 125 STATE_NONE 0,
                          val_new 94 STATE_DROP 8, val_new 63 STATE_NONE 0],
                  cols = 2, rows = 2, drop_count = 1, drop_ratio = 1 / 16\<rparr>"

text \<open>
  The state of the cell at a coordinate of the grid, and the number of columns whose bottom
  cell is a DROP.
\<close>

definition state_at :: "matrix_s \<Rightarrow> int \<Rightarrow> int \<Rightarrow> 8 word" where
  "state_at m row col = val_get_state (data m ! cell_idx m row col)"

definition bottom_drops :: "matrix_s \<Rightarrow> nat" where
  "bottom_drops m =
     length (filter (\<lambda>c. state_at m (uint (rows m) - 1) (int c) = STATE_DROP) [0..<unat (cols m)])"

text \<open>
  The buffer after one step of the loop of \<^verbatim>\<open>mat_mov_col\<close> on a cell that is not NONE: the
  state \<open>s\<close> and the tail size \<open>t\<close> of the cell are written one row below, when that row
  is one of the grid, and the cell itself becomes NONE.
\<close>

definition moved :: "matrix_s \<Rightarrow> int \<Rightarrow> int \<Rightarrow> 8 word \<Rightarrow> 8 word \<Rightarrow> 16 word list" where
  "moved m row col s t =
     (if row + 1 < uint (rows m)
      then (data m)[cell_idx m (row + 1) col :=
             val_new (val_get_ascii (data m ! cell_idx m (row + 1) col)) s t]
      else data m)
     [cell_idx m row col := val_new (val_get_ascii (data m ! cell_idx m row col)) STATE_NONE 0]"

text \<open>A 2 by 2 grid: a DROP and a TAIL cell in the top row, two NONE cells below.\<close>

definition grid_2x2 :: matrix_s where
  "grid_2x2 = \<lparr>data = [0x2141, 0x0A42, 0x0043, 0x0044], cols = 2, rows = 2,
                drop_count = 1, drop_ratio = 1 / 16\<rparr>"

section \<open>The cell codec\<close>

lemma mask_ascii: "(0xFF :: 32 word) = mask 8"
  by (simp add: mask_eq_exp_minus_1)

lemma mask_state: "(0x300 :: 32 word) = push_bit 8 (mask 2)"
  by (simp add: mask_eq_exp_minus_1)

lemma mask_tsize: "(0xFC00 :: 32 word) = push_bit 10 (mask 6)"
  by (simp add: mask_eq_exp_minus_1)

lemma val_get_ascii_new [simp]: "val_get_ascii (val_new c s a) = c"
  unfolding val_get_ascii_def val_new_def BITMASK_ASCII_def BITMASK_STATE_def
    BITMASK_TSIZE_def mask_ascii mask_state mask_tsize
  by (rule bit_word_eqI) (auto simp add: bit_simps)

lemma val_get_state_new: "val_get_state (val_new c s a) = take_bit 2 s"
  unfolding val_get_state_def val_new_def BITMASK_ASCII_def BITMASK_STATE_def
    BITMASK_TSIZE_def mask_ascii mask_state mask_tsize
  by (rule bit_word_eqI) (auto simp add: bit_simps dest: bit_imp_le_length)

lemma val_get_tsize_new: "val_get_tsize (val_new c s a) = take_bit 6 a"
  unfolding val_get_tsize_def val_new_def BITMASK_ASCII_def BITMASK_STATE_def
    BITMASK_TSIZE_def mask_ascii mask_state mask_tsize
  by (rule bit_word_eqI) (auto simp add: bit_simps dest: bit_imp_le_length)

lemma take_bit_2_small: "s < 4 \<Longrightarrow> (take_bit 2 s :: 8 word) = s"
  using less_mask_eq [of s 2] by (simp add: take_bit_eq_mask)

lemma take_bit_6_small: "a \<le> 63 \<Longrightarrow> (take_bit 6 a :: 8 word) = a"
proof -
  assume "a \<le> 63"
  then have "a < 2 ^ 6" by unat_arith
  then show ?thesis using less_mask_eq [of a 6] by (simp add: take_bit_eq_mask)
qed

text \<open>
  Claim C10. The codec is total, and it truncates: for all 8-bit arguments, also outside
  the valid ranges, decoding an encoded cell gives back the character unchanged, the state
  modulo 4 and the tail size modulo 64.
\<close>

theorem codec_truncates:
  "val_get_ascii (val_new c s a) = c
   \<and> unat (val_get_state (val_new c s a)) = unat s mod 4
   \<and> unat (val_get_tsize (val_new c s a)) = unat a mod 64"
proof -
  have "unat (take_bit 2 s) = unat s mod 4"
    unfolding unsigned_take_bit_eq by (simp add: take_bit_eq_mod)
  moreover have "unat (take_bit 6 a) = unat a mod 64"
    unfolding unsigned_take_bit_eq by (simp add: take_bit_eq_mod)
  ultimately show ?thesis
    by (simp add: val_get_state_new val_get_tsize_new)
qed

text \<open>
  Claim C7. The codec round-trips on valid cells: for a character in [32,126], a state
  among NONE, DROP and TAIL and a tail size in [0,63], the three decoders give back the
  three arguments of the encoder.
\<close>

theorem codec_roundtrip:
  assumes "uint c \<in> {ASCII_MIN..ASCII_MAX}"
    and "s \<in> {STATE_NONE, STATE_DROP, STATE_TAIL}"
    and "a \<le> 63"
  shows "val_get_ascii (val_new c s a) = c
    \<and> val_get_state (val_new c s a) = s
    \<and> val_get_tsize (val_new c s a) = a"
proof -
  from assms(2) have "s < 4"
    by (auto simp add: STATE_NONE_def STATE_DROP_def STATE_TAIL_def)
  then show ?thesis
    using assms(3)
    by (simp add: val_get_state_new val_get_tsize_new take_bit_2_small take_bit_6_small)
qed

theorem codec_roundtrip_witness:
  "uint (65 :: 8 word) \<in> {ASCII_MIN..ASCII_MAX}
   \<and> STATE_TAIL \<in> {STATE_NONE, STATE_DROP, STATE_TAIL}
   \<and> (5 :: 8 word) \<le> 63
   \<and> val_get_ascii (val_new 65 STATE_TAIL 5) = 65
   \<and> val_get_state (val_new 65 STATE_TAIL 5) = STATE_TAIL
   \<and> val_get_tsize (val_new 65 STATE_TAIL 5) = 5"
proof -
  have h1: "uint (65 :: 8 word) \<in> {ASCII_MIN..ASCII_MAX}"
    by (simp add: ASCII_MIN_def ASCII_MAX_def)
  have h2: "STATE_TAIL \<in> {STATE_NONE, STATE_DROP, STATE_TAIL}"
    by simp
  have h3: "(5 :: 8 word) \<le> 63"
    by simp
  show ?thesis
    using h1 h2 h3 codec_roundtrip [OF h1 h2 h3] by simp
qed

section \<open>Reading and writing cells\<close>

text \<open>
  Claim C5, as amended. The accessors compare the coordinates with the upper bounds only.
  For a row at or beyond \<open>rows\<close>, or a column at or beyond \<open>cols\<close>, the getter returns the
  zero cell, whose state is NONE, and the setter returns the matrix as it was; neither
  fails.
\<close>

theorem mat_access_beyond:
  assumes "row \<ge> uint (rows m) \<or> col \<ge> uint (cols m)"
  shows "mat_get_value m row col = Some 0
    \<and> mat_get_state m row col = Some STATE_NONE
    \<and> mat_set_value m row col v = Some m"
  using assms
  by (auto simp add: mat_get_value_def mat_get_state_def mat_set_value_def
      val_get_state_def STATE_NONE_def)

theorem mat_access_beyond_witness:
  "(7 \<ge> uint (rows grid_2x2) \<or> 0 \<ge> uint (cols grid_2x2))
   \<and> mat_get_value grid_2x2 7 0 = Some 0
   \<and> mat_get_state grid_2x2 7 0 = Some STATE_NONE
   \<and> mat_set_value grid_2x2 7 0 0x0158 = Some grid_2x2"
proof -
  have h: "7 \<ge> uint (rows grid_2x2) \<or> 0 \<ge> uint (cols grid_2x2)"
    by (simp add: grid_2x2_def)
  show ?thesis
    using h mat_access_beyond [OF h, of "0x0158"] by simp
qed

text \<open>
  Claim C5, as stated, fails below zero. In the 2 by 2 grid, the coordinate (1, -1) is the
  index 1, the cell of row 0 and column 1: the getter returns that cell, and the setter
  overwrites it. The coordinate (-1, 0) is an index before the buffer.
\<close>

theorem mat_access_negative_counterexample:
  "mat_get_value grid_2x2 1 (- 1) = Some 0x0A42
   \<and> mat_set_value grid_2x2 1 (- 1) 0 = Some (grid_2x2\<lparr>data := [0x2141, 0, 0x0043, 0x0044]\<rparr>)
   \<and> mat_set_value grid_2x2 1 (- 1) 0 \<noteq> Some grid_2x2
   \<and> mat_get_value grid_2x2 (- 1) 0 = None
   \<and> mat_set_value grid_2x2 (- 1) 0 0 = None"
  by (simp add: mat_get_value_def mat_set_value_def mat_idx_def c_int_def buf_read_def
      buf_write_def grid_2x2_def)

section \<open>Single-precision rounding\<close>

lemma rne_cases: "rne y = \<lfloor>y\<rfloor> \<or> rne y = \<lfloor>y\<rfloor> + 1"
  by (simp add: rne_def Let_def)

lemma rne_ge: "of_int N \<le> y \<Longrightarrow> N \<le> rne y"
proof -
  assume "of_int N \<le> y"
  then have "N \<le> \<lfloor>y\<rfloor>" by (simp add: le_floor_iff)
  then show ?thesis using rne_cases [of y] by auto
qed

lemma rne_le: "y \<le> of_int N \<Longrightarrow> rne y \<le> N"
proof (cases "y = of_int N")
  case True
  then show ?thesis by (simp add: rne_def)
next
  case False
  assume "y \<le> of_int N"
  with False have "y < of_int N" by simp
  then have "\<lfloor>y\<rfloor> < N" by (simp add: floor_less_iff)
  then show ?thesis using rne_cases [of y] by auto
qed

lemma rne_err: "\<bar>of_int (rne y) - y\<bar> \<le> 1 / 2"
proof -
  have "of_int \<lfloor>y\<rfloor> \<le> y" "y < of_int \<lfloor>y\<rfloor> + 1"
    by linarith+
  then show ?thesis
    unfolding rne_def Let_def by (simp add: abs_le_iff)
qed

lemma float_exp_low: 
  assumes "x \<noteq> 0"
  shows "float_exp x = - 126 \<or> 2 powi (float_exp x) \<le> \<bar>x\<bar>"
proof -
  obtain p q where pq: "quotient_of \<bar>x\<bar> = (p, q)" by (cases "quotient_of \<bar>x\<bar>")
  then have q: "0 < q" and x: "\<bar>x\<bar> = of_int p / of_int q"
    by (auto simp add: quotient_of_denom_pos quotient_of_div)
  have p: "0 < p"
  proof (rule ccontr)
    assume "\<not> 0 < p"
    then have "of_int p / of_int q \<le> (0::rat)" using q by (simp add: divide_le_0_iff)
    with x assms show False by simp
  qed
  define d where "d = bitlen p - bitlen q"
  have bp: "(2::rat) ^ nat (bitlen p - 1) \<le> of_int p"
    using bitlen_bounds [OF p] by (metis of_int_le_iff of_int_numeral of_int_power)
  have bq: "of_int q < (2::rat) ^ nat (bitlen q)"
    using bitlen_bounds [OF q] by (metis of_int_less_iff of_int_numeral of_int_power)
  have "bitlen p \<ge> 1" "bitlen q \<ge> 1" using p q by (auto simp: bitlen_alt_def)
  then have e1: "(2::rat) ^ nat (bitlen p - 1) = 2 powi (bitlen p - 1)" 
    and e2: "(2::rat) ^ nat (bitlen q) = 2 powi (bitlen q)"
    by (simp_all add: power_int_def)
  have "2 powi (d - 1) = 2 powi (bitlen p - 1) / (2::rat) powi (bitlen q)"
    by (simp add: d_def power_int_diff)
  also have "\<dots> \<le> of_int p / 2 powi (bitlen q)"
    using bp e1 by (simp add: divide_right_mono)
  also have "\<dots> \<le> of_int p / of_int q"
    using bq e2 p q by (simp add: frac_le)
  finally have "2 powi (d - 1) \<le> \<bar>x\<bar>" using x by simp
  then show ?thesis using pq
    by (auto simp add: float_exp_def Let_def d_def max_def)
qed

lemma float_exp_le:
  assumes "x \<noteq> 0" and "\<bar>x\<bar> < 2 powi (k + 1)" and "- 126 \<le> k"
  shows "float_exp x \<le> k"
proof (rule ccontr)
  assume "\<not> float_exp x \<le> k"
  then have "k + 1 \<le> float_exp x" by simp
  then have "(2::rat) powi (k + 1) \<le> 2 powi (float_exp x)"
    by (simp add: power_int_increasing)
  moreover have "2 powi (float_exp x) \<le> \<bar>x\<bar>"
    using float_exp_low [OF assms(1)] \<open>k + 1 \<le> float_exp x\<close> assms(3) by auto
  ultimately show False using assms(2) by simp
qed


lemma dyadic_int:
  assumes "e - 23 \<le> j"
  shows "(of_int n * 2 powi j) / 2 powi (e - 23) = (of_int (n * 2 ^ nat (j - (e - 23))) :: rat)"
proof -
  have eq: "(2::rat) powi j / 2 powi (e - 23) = 2 ^ nat (j - (e - 23))"
  proof -
    have "(2::rat) powi j / 2 powi (e - 23) = 2 powi (j - (e - 23))"
      by (simp add: power_int_diff)
    also have "\<dots> = 2 ^ nat (j - (e - 23))"
      using assms by (simp add: power_int_def)
    finally show ?thesis .
  qed
  have "(of_int n * 2 powi j) / 2 powi (e - 23) = of_int n * ((2::rat) powi j / 2 powi (e - 23))"
    by simp
  also have "\<dots> = of_int n * 2 ^ nat (j - (e - 23))"
    by (simp only: eq)
  also have "\<dots> = of_int (n * 2 ^ nat (j - (e - 23)))"
    by simp
  finally show ?thesis .
qed

lemma to_float_unfold:
  "x \<noteq> 0 \<Longrightarrow> to_float x = of_int (rne (x / 2 powi (float_exp x - 23))) * 2 powi (float_exp x - 23)"
  by (simp add: to_float_def Let_def)

lemma to_float_ge:
  assumes "of_int n * 2 powi j \<le> x" and "float_exp x - 23 \<le> j"
  shows "of_int n * 2 powi j \<le> to_float x"
proof (cases "x = 0")
  case True
  with assms(1) show ?thesis by (simp add: to_float_def)
next
  case False
  define u :: rat where "u = 2 powi (float_exp x - 23)"
  have u: "0 < u" by (simp add: u_def)
  define M where "M = n * 2 ^ nat (j - (float_exp x - 23))"
  have M: "(of_int n * 2 powi j) / u = of_int M"
    unfolding u_def M_def by (rule dyadic_int [OF assms(2)])
  have tf: "to_float x = of_int (rne (x / u)) * u"
    unfolding u_def by (rule to_float_unfold [OF False])
  have "(of_int n * 2 powi j) / u \<le> x / u"
    using assms(1) u by (simp add: divide_right_mono)
  then have "M \<le> rne (x / u)" using M by (simp add: rne_ge)
  then have "of_int M * u \<le> of_int (rne (x / u)) * u"
    using u by simp
  moreover have "of_int M * u = of_int n * 2 powi j"
    using M u by (simp add: field_simps)
  ultimately show ?thesis unfolding tf by linarith
qed

lemma to_float_le:
  assumes "x \<le> of_int n * 2 powi j" and "float_exp x - 23 \<le> j"
  shows "to_float x \<le> of_int n * 2 powi j"
proof (cases "x = 0")
  case True
  with assms(1) show ?thesis by (simp add: to_float_def)
next
  case False
  define u :: rat where "u = 2 powi (float_exp x - 23)"
  have u: "0 < u" by (simp add: u_def)
  define M where "M = n * 2 ^ nat (j - (float_exp x - 23))"
  have M: "(of_int n * 2 powi j) / u = of_int M"
    unfolding u_def M_def by (rule dyadic_int [OF assms(2)])
  have tf: "to_float x = of_int (rne (x / u)) * u"
    unfolding u_def by (rule to_float_unfold [OF False])
  have "x / u \<le> (of_int n * 2 powi j) / u"
    using assms(1) u by (simp add: divide_right_mono)
  then have "rne (x / u) \<le> M" using M by (simp add: rne_le)
  then have "of_int (rne (x / u)) * u \<le> of_int M * u"
    using u by simp
  moreover have "of_int M * u = of_int n * 2 powi j"
    using M u by (simp add: field_simps)
  ultimately show ?thesis unfolding tf by linarith
qed

lemma to_float_err:
  assumes "x \<noteq> 0"
  shows "\<bar>to_float x - x\<bar> \<le> 2 powi (float_exp x - 24)"
proof -
  define u :: rat where "u = 2 powi (float_exp x - 23)"
  have u: "0 < u" by (simp add: u_def)
  have tf: "to_float x = of_int (rne (x / u)) * u"
    unfolding u_def by (rule to_float_unfold [OF assms])
  have "\<bar>of_int (rne (x / u)) - x / u\<bar> * u \<le> (1 / 2) * u"
    using rne_err [of "x / u"] u by (simp only: mult_right_mono less_imp_le)
  moreover have "\<bar>of_int (rne (x / u)) - x / u\<bar> * u = \<bar>of_int (rne (x / u)) * u - x\<bar>"
  proof -
    have "\<bar>of_int (rne (x / u)) - x / u\<bar> * u = \<bar>(of_int (rne (x / u)) - x / u) * u\<bar>"
      using u by (simp add: abs_mult)
    also have "(of_int (rne (x / u)) - x / u) * u = of_int (rne (x / u)) * u - x"
      using u by (simp add: field_simps)
    finally show ?thesis .
  qed
  moreover have "(1 / 2) * u = 2 powi (float_exp x - 24)"
    by (simp add: u_def power_int_diff)
  ultimately show ?thesis unfolding tf by linarith
qed

lemma to_float_of_int:
  assumes "\<bar>n\<bar> < 2 ^ 24"
  shows "to_float (of_int n) = of_int n"
proof (cases "n = 0")
  case True
  then show ?thesis by (simp add: to_float_def)
next
  case False
  have "\<bar>rat_of_int n\<bar> < 2 ^ 24"
    using assms by (metis of_int_abs of_int_less_iff of_int_numeral of_int_power)
  then have "float_exp (of_int n) \<le> 23"
    using False by (intro float_exp_le) simp_all
  then have e: "float_exp (of_int n) - 23 \<le> 0" by simp
  have "of_int n * 2 powi 0 \<le> to_float (of_int n)"
    by (rule to_float_ge [OF _ e]) simp
  moreover have "to_float (of_int n) \<le> of_int n * 2 powi 0"
    by (rule to_float_le [OF _ e]) simp
  ultimately show ?thesis by simp
qed

lemma to_float_div_floor:
  assumes a: "0 \<le> a" "a < 2 ^ 24" and b: "0 < b" "b < 2 ^ 24"
  shows "\<lfloor>to_float (of_int a / of_int b)\<rfloor> = a div b"
proof (cases "a = 0")
  case True
  then show ?thesis by (simp add: to_float_def)
next
  case False
  with a have apos: "0 < a" by simp
  define x :: rat where "x = of_int a / of_int b"
  define q where "q = a div b"
  define e where "e = float_exp x"
  define u :: rat where "u = 2 powi (e - 23)"
  have u: "0 < u" by (simp add: u_def)
  have xpos: "0 < x" using apos b by (simp add: x_def)
  then have xnz: "x \<noteq> 0" by simp
  have br: "(0::rat) < of_int b" using b by simp
  have dm: "a div b * b + a mod b = a" by simp
  have mb: "0 \<le> a mod b" "a mod b < b" using b by simp_all
  have qx: "of_int q \<le> x"
  proof -
    have "q * b \<le> a" using dm mb unfolding q_def by linarith
    then have "rat_of_int (q * b) \<le> of_int a" by (simp only: of_int_le_iff)
    then show ?thesis using br by (simp add: x_def pos_le_divide_eq)
  qed
  have xq: "x \<le> of_int (q + 1) - 1 / of_int b"
  proof -
    have "(q + 1) * b = q * b + b" by (simp add: algebra_simps)
    then have "a < (q + 1) * b" using dm mb unfolding q_def by linarith
    then have "a + 1 \<le> (q + 1) * b" by simp
    then have "rat_of_int (a + 1) \<le> of_int ((q + 1) * b)" by (simp only: of_int_le_iff)
    then have "rat_of_int a + 1 \<le> of_int (q + 1) * rat_of_int b" by simp
    then have "(rat_of_int a + 1) / of_int b \<le> of_int (q + 1)"
      using br by (simp add: pos_divide_le_eq)
    then show ?thesis by (simp add: x_def add_divide_distrib)
  qed
  have x24: "\<bar>x\<bar> < 2 powi (23 + 1)"
  proof -
    have "x \<le> of_int a" using apos br b
      by (simp add: x_def pos_divide_le_eq mult_le_cancel_left1) 
    moreover have "rat_of_int a < 2 ^ 24"
      using a(2) by (metis of_int_less_iff of_int_numeral of_int_power)
    ultimately show ?thesis using xpos by simp
  qed
  have e23: "e \<le> 23" unfolding e_def by (rule float_exp_le [OF xnz x24]) simp
  have elow: "2 powi e \<le> x"
  proof -
    have "1 / rat_of_int b \<le> x" using apos br
      by (simp add: x_def divide_right_mono)
    moreover have "rat_of_int b < 2 ^ 24"
      using b(2) by (metis of_int_less_iff of_int_numeral of_int_power)
    then have "1 / 2 ^ 24 < 1 / rat_of_int b" using br by (simp add: frac_less2)
    moreover have "(2::rat) powi (- 126) \<le> 1 / 2 ^ 24"
    proof -
      have "(2::rat) powi (- 126) \<le> 2 powi (- 24)"
        by (rule power_int_increasing) simp_all
      also have "(2::rat) powi (- 24) = 1 / 2 ^ 24"
        by (simp add: power_int_minus_divide)
      finally show ?thesis .
    qed
    ultimately have "(2::rat) powi (- 126) \<le> x" by linarith
    then show ?thesis using float_exp_low [OF xnz] xpos unfolding e_def by auto
  qed
  have tf: "to_float x = of_int (rne (x / u)) * u"
    unfolding u_def e_def by (rule to_float_unfold [OF xnz])
  have low: "of_int q \<le> to_float x"
    using to_float_ge [of q 0 x] qx e23 by (simp add: e_def)
  define M where "M = (q + 1) * 2 ^ nat (0 - (e - 23))"
  have M: "of_int (q + 1) / u = of_int M"
    using dyadic_int [of e 0 "q + 1"] e23 by (simp add: u_def M_def)
  have bu: "of_int b * u < 2"
  proof -
    have "of_int b * 2 powi e \<le> of_int b * x"
      using elow br by simp
    also have "\<dots> = of_int a" using br by (simp add: x_def)
    also have "\<dots> < 2 ^ 24"
      using a(2) by (metis of_int_less_iff of_int_numeral of_int_power)
    finally have "of_int b * 2 powi e < (2::rat) ^ 24" .
    moreover have "(2::rat) powi e = u * 2 ^ 23" by (simp add: u_def power_int_diff)
    ultimately have "(of_int b * u) * 2 ^ 23 < (2::rat) * 2 ^ 23" by (simp add: mult.assoc)
    then show ?thesis by (simp only: mult_less_cancel_right_pos zero_less_power zero_less_numeral)
  qed
  have "x / u \<le> (of_int (q + 1) - 1 / of_int b) / u"
    using xq u by (simp add: divide_right_mono)
  also have "\<dots> = of_int M - 1 / (of_int b * u)"
    using M by (simp add: diff_divide_distrib)
  also have "\<dots> < of_int M - 1 / 2"
  proof -
    have "0 < of_int b * u" using br u by simp
    with bu have "1 / 2 < 1 / (of_int b * u)" by (simp add: frac_less2)
    then show ?thesis by simp
  qed
  finally have "x / u < of_int M - 1 / 2" .
  moreover have "of_int (rne (x / u)) \<le> x / u + 1 / 2"
    using rne_err [of "x / u"] by linarith
  ultimately have "rat_of_int (rne (x / u)) < of_int M" by linarith
  then have "rne (x / u) < M" by (simp only: of_int_less_iff)
  then have "rat_of_int (rne (x / u)) < of_int M" by simp
  then have "of_int (rne (x / u)) * u < of_int M * u"
    using u by simp
  moreover have "of_int M * u = of_int (q + 1)"
    using M u by (simp add: field_simps)
  ultimately have "to_float x < of_int (q + 1)" unfolding tf by simp
  with low have "\<lfloor>to_float x\<rfloor> = q" by (simp add: floor_unique)
  then show ?thesis by (simp add: x_def q_def)
qed

lemma fifths:
  "to_float (5 * to_float (1 / 5)) = 1"
  "to_float (5 * to_float (2 / 5)) = 2"
  "to_float (5 * to_float (3 / 5)) = 3"
  "to_float (5 * to_float (4 / 5)) = 4"
  "to_float (5 * to_float 1) = 5"
  by code_simp+

lemma tail_color_exact:
  assumes "1 \<le> i" and "i \<le> L" and "L \<le> 63"
  shows "\<lceil>to_float (5 * to_float (of_int i / of_int L))\<rceil> = \<lceil>(5 * of_int i / of_int L :: rat)\<rceil>"
proof -
  define x :: rat where "x = of_int i / of_int L"
  define y :: rat where "y = 5 * x"
  define k where "k = (5 * i) div L"
  define r where "r = (5 * i) mod L"
  have Lpos: "0 < L" using assms by simp
  have Lr: "(0::rat) < of_int L" using Lpos by simp
  have dm: "k * L + r = 5 * i" by (simp add: k_def r_def)
  have rb: "0 \<le> r" "r < L" using Lpos by (simp_all add: r_def)
  have yk: "y = of_int k + of_int r / of_int L"
  proof -
    have "y = of_int (5 * i) / of_int L" by (simp add: y_def x_def)
    also have "\<dots> = rat_of_int (k * L + r) / of_int L" by (simp only: dm)
    also have "\<dots> = of_int k + of_int r / of_int L" using Lr by (simp add: add_divide_distrib)
    finally show ?thesis .
  qed
  have kb: "0 \<le> k" "k \<le> 5"
  proof -
    show "0 \<le> k" unfolding k_def using assms Lpos by (simp add: pos_imp_zdiv_nonneg_iff)
    have "5 * i \<le> 5 * L" using assms by simp
    then have "(5 * i) div L \<le> (5 * L) div L" using Lpos by (rule zdiv_mono1)
    then show "k \<le> 5" using Lpos by (simp add: k_def)
  qed
  show ?thesis
  proof (cases "r = 0")
    case True
    then have yk': "y = of_int k" using yk by simp
    have "k * L = 5 * i" using dm True by simp
    then have "1 \<le> k" using assms kb 
      by (smt (verit) mult_le_0_iff)
    have "x = of_int k / 5" using yk' by (simp add: y_def)
    moreover have "k \<in> {1, 2, 3, 4, 5}" using \<open>1 \<le> k\<close> kb by auto
    ultimately have "x = 1 / 5 \<or> x = 2 / 5 \<or> x = 3 / 5 \<or> x = 4 / 5 \<or> x = 1"
      by auto
    then consider "x = 1 / 5" | "x = 2 / 5" | "x = 3 / 5" | "x = 4 / 5" | "x = 1"
      by blast
    then have "to_float (5 * to_float x) = 5 * x"
    proof cases
      case 1 show ?thesis unfolding 1 by (simp add: fifths)
    next
      case 2 show ?thesis unfolding 2 by (simp add: fifths)
    next
      case 3 show ?thesis unfolding 3 by (simp add: fifths)
    next
      case 4 show ?thesis unfolding 4 by (simp add: fifths)
    next
      case 5 show ?thesis unfolding 5 by (simp add: fifths)
    qed
    then show ?thesis by (simp add: x_def)
  next
    case False
    with rb have r1: "1 \<le> r" "r \<le> L - 1" by simp_all
    have k4: "k \<le> 4"
    proof (rule ccontr)
      assume "\<not> k \<le> 4"
      with kb have "k = 5" by simp
      with dm have "5 * L + r = 5 * i" by simp
      with r1 assms show False by simp
    qed
    have f1: "1 / 63 \<le> of_int r / rat_of_int L"
    proof -
      have "rat_of_int L \<le> 63" using assms(3) by (metis of_int_le_iff of_int_numeral)
      moreover have "(1::rat) \<le> of_int r" using r1 by simp
      ultimately show ?thesis using Lr by (simp add: frac_le)
    qed
    have f2: "of_int r / rat_of_int L \<le> 1 - 1 / 63"
    proof -
      have "rat_of_int r \<le> of_int L - 1" using r1 by (metis of_int_le_iff of_int_diff of_int_1)
      then have "of_int r / rat_of_int L \<le> (of_int L - 1) / of_int L"
        using Lr by (simp add: divide_right_mono)
      also have "\<dots> = 1 - 1 / of_int L" using Lr by (simp add: diff_divide_distrib)
      also have "\<dots> \<le> 1 - 1 / 63"
      proof -
        have "rat_of_int L \<le> 63" using assms(3) by (metis of_int_le_iff of_int_numeral)
        then have "1 / 63 \<le> 1 / rat_of_int L" using Lr by (simp add: frac_le)
        then show ?thesis by simp
      qed
      finally show ?thesis .
    qed
    have xpos: "0 < x" using assms Lr by (simp add: x_def)
    have x1: "x \<le> 1" using assms Lr by (simp add: x_def)
    have "float_exp x \<le> 0"
      using xpos x1 by (intro float_exp_le) simp_all
    then have "(2::rat) powi (float_exp x - 24) \<le> 2 powi (- 24)"
      by (intro power_int_increasing) simp_all
    also have "(2::rat) powi (- 24) = 1 / 2 ^ 24" by (simp add: power_int_minus_divide)
    finally have terr: "\<bar>to_float x - x\<bar> \<le> 1 / 2 ^ 24"
      using to_float_err [of x] xpos by simp
    define z where "z = 5 * to_float x"
    have terr': "\<bar>to_float x - x\<bar> \<le> 1 / 16777216"
      using terr by simp
    have "\<bar>z - y\<bar> = \<bar>5 * (to_float x - x)\<bar>" by (simp add: z_def y_def algebra_simps)
    also have "\<dots> = 5 * \<bar>to_float x - x\<bar>" by (simp only: abs_mult abs_numeral)
    finally have "\<bar>z - y\<bar> = 5 * \<bar>to_float x - x\<bar>" .
    with terr' have "\<bar>z - y\<bar> \<le> 5 / 16777216" by simp
    then have zy: "z \<le> y + 5 / 16777216" "y - 5 / 16777216 \<le> z"
      by (simp_all only: abs_le_iff) linarith+
    have zu: "z \<le> of_int (k + 1) * 2 powi 0"
      using zy yk f2 by simp
    have zl: "of_int (64 * k + 1) * 2 powi (- 6) \<le> z"
    proof -
      have "of_int (64 * k + 1) * (2::rat) powi (- 6) = of_int k + 1 / 64"
        by (simp add: power_int_minus_divide add_divide_distrib)
      then show ?thesis using zy yk f1 by linarith
    qed
    have zpos: "0 < z"
    proof -
      have "(0::rat) < of_int (64 * k + 1) * 2 powi (- 6)" using kb by simp
      with zl show ?thesis by simp
    qed
    have "\<bar>z\<bar> < 2 powi (2 + 1)"
    proof -
      have "rat_of_int (k + 1) \<le> 5" using k4 by (metis of_int_le_iff of_int_numeral add.commute add_le_cancel_left one_add_one numeral_Bit0 numeral_Bit1 add.assoc le_diff_eq)
      with zu zpos show ?thesis by simp
    qed
    then have ze: "float_exp z \<le> 2"
      using zpos by (intro float_exp_le) simp_all
    have "to_float z \<le> of_int (k + 1) * 2 powi 0"
      using zu ze by (intro to_float_le) simp_all
    moreover have "of_int (64 * k + 1) * 2 powi (- 6) \<le> to_float z"
      using zl ze by (intro to_float_ge) simp_all
    moreover have "of_int (64 * k + 1) * (2::rat) powi (- 6) = of_int k + 1 / 64"
      by (simp add: power_int_minus_divide add_divide_distrib)
    ultimately have "of_int (k + 1) - 1 < to_float z" "to_float z \<le> of_int (k + 1)"
      by simp_all
    then have "\<lceil>to_float z\<rceil> = k + 1" by (rule ceiling_unique)
    moreover have "\<lceil>y\<rceil> = k + 1"
    proof (rule ceiling_unique)
      have "rat_of_int (k + 1) = of_int k + 1" by simp
      then show "of_int (k + 1) - 1 < y" using yk f1 by linarith
      have "rat_of_int (k + 1) = of_int k + 1" by simp
      then show "y \<le> of_int (k + 1)" using yk f2 by linarith
    qed
    ultimately show ?thesis by (simp add: z_def y_def x_def)
  qed
qed

section \<open>Cell updates\<close>

lemma mat_set_ascii_upd:
  "mat_set_ascii m row col a = mat_upd m row col (\<lambda>v. val_new a (val_get_state v) (val_get_tsize v))"
  by (simp add: mat_set_ascii_def mat_upd_def)

lemma mat_set_state_upd:
  "mat_set_state m row col s = mat_upd m row col
     (\<lambda>v. val_new (val_get_ascii v) s (if s = STATE_NONE then 0 else val_get_tsize v))"
  by (simp add: mat_set_state_def mat_upd_def Let_def)

lemma mat_set_tsize_upd:
  "mat_set_tsize m row col t = mat_upd m row col (\<lambda>v. val_new (val_get_ascii v) (val_get_state v) t)"
  by (simp add: mat_set_tsize_def mat_upd_def)

lemma mat_upd_beyond:
  "row \<ge> uint (rows m) \<or> col \<ge> uint (cols m) \<Longrightarrow> mat_upd m row col f = Some m"
  by (auto simp add: mat_upd_def mat_get_value_def mat_set_value_def)

lemma mat_upd_shape:
  assumes "mat_upd m row col f = Some m'"
  shows "m' = m \<or> (\<exists>i < length (data m). m' = m\<lparr>data := (data m)[i := f (data m ! i)]\<rparr>)"
proof (cases "row \<ge> uint (rows m) \<or> col \<ge> uint (cols m)")
  case True
  then show ?thesis using assms mat_upd_beyond [of m row col f] by simp
next
  case False
  with assms obtain x where "0 \<le> x" "x < int (length (data m))"
    "m' = m\<lparr>data := (data m)[nat x := f (data m ! nat x)]\<rparr>"
    by (auto simp add: mat_upd_def mat_get_value_def mat_set_value_def buf_read_def
        buf_write_def split: if_splits bind_splits)
  then show ?thesis by (intro disjI2 exI [of _ "nat x"]) auto
qed

lemma mat_upd_compose:
  assumes "mat_upd m row col f = Some m'"
  shows "mat_upd m' row col g = mat_upd m row col (g \<circ> f)"
  using assms
  by (auto simp add: mat_upd_def mat_get_value_def mat_set_value_def buf_read_def buf_write_def
      mat_idx_def split: if_splits bind_splits)

lemma mat_upd_frame:
  assumes "mat_upd m row col f = Some m'"
  shows "rows m' = rows m" "cols m' = cols m" "drop_count m' = drop_count m"
    "drop_ratio m' = drop_ratio m" "length (data m') = length (data m)"
  using mat_upd_shape [OF assms] by auto

lemma mat_upd_pointwise:
  assumes "mat_upd m row col f = Some m'" and "\<forall>v \<in> set (data m). P v" and "\<And>v. P v \<Longrightarrow> P (f v)"
  shows "\<forall>v \<in> set (data m'). P v"
proof -
  from mat_upd_shape [OF assms(1)] show ?thesis
  proof
    assume "m' = m" with assms(2) show ?thesis by simp
  next
    assume "\<exists>i < length (data m). m' = m\<lparr>data := (data m)[i := f (data m ! i)]\<rparr>"
    then obtain i where i: "i < length (data m)" "m' = m\<lparr>data := (data m)[i := f (data m ! i)]\<rparr>"
      by blast
    have "P (f (data m ! i))" using assms(2,3) i(1) by simp
    then show ?thesis using assms(2) i(2) by (auto dest: set_update_subset_insert [THEN subsetD])
  qed
qed

lemma mat_upd_map:
  assumes "mat_upd m row col f = Some m'" and "\<And>v. h (f v) = h v"
  shows "map h (data m') = map h (data m)"
  using mat_upd_shape [OF assms(1)] assms(2) by (auto simp add: map_update list_update_same_conv)

section \<open>Coordinates of the grid\<close>

lemma matrix_ok_int:
  assumes "matrix_ok m"
  shows "int (length (data m)) = uint (rows m) * uint (cols m)"
    and "uint (rows m) * uint (cols m) < 2 ^ 31"
proof -
  show "int (length (data m)) = uint (rows m) * uint (cols m)"
    using assms by (simp add: matrix_ok_def)
  have "int (unat (rows m) * unat (cols m)) < int (2 ^ 31)"
    using assms by (simp only: matrix_ok_def of_nat_less_iff)
  then show "uint (rows m) * uint (cols m) < 2 ^ 31" by simp
qed

lemma cell_idx_bound:
  assumes "matrix_ok m" and "in_grid m row col"
  shows "row * uint (cols m) + col < int (length (data m))"
    and "row * uint (cols m) + col < 2 ^ 31" and "0 \<le> row * uint (cols m)"
    and "row * uint (cols m) < 2 ^ 31"
proof -
  note len = matrix_ok_int(1) [OF assms(1)] and small = matrix_ok_int(2) [OF assms(1)]
  have rc: "0 \<le> row" "row < uint (rows m)" "0 \<le> col" "col < uint (cols m)"
    using assms(2) by (simp_all add: in_grid_def)
  have "row + 1 \<le> uint (rows m)" using rc by simp
  then have "(row + 1) * uint (cols m) \<le> uint (rows m) * uint (cols m)"
    by (rule mult_right_mono) simp
  then have *: "row * uint (cols m) + uint (cols m) \<le> uint (rows m) * uint (cols m)"
    by (simp add: algebra_simps)
  show "row * uint (cols m) + col < int (length (data m))"
    using * rc len by linarith
  show "row * uint (cols m) + col < 2 ^ 31"
    using * rc small by linarith
  show nn: "0 \<le> row * uint (cols m)" using rc by simp
  show "row * uint (cols m) < 2 ^ 31"
    using * rc small by linarith
qed

lemma mat_idx_in:
  assumes "matrix_ok m" and "in_grid m row col"
  shows "mat_idx m row col = Some (row * uint (cols m) + col)"
proof -
  note b = cell_idx_bound [OF assms]
  have "0 \<le> col" using assms(2) by (simp add: in_grid_def)
  have "c_int (row * uint (cols m)) = Some (row * uint (cols m))"
    unfolding c_int_def using b(3,4) by (simp del: zero_le_mult_iff)
  moreover have "c_int (row * uint (cols m) + col) = Some (row * uint (cols m) + col)"
    unfolding c_int_def using b(2,3) \<open>0 \<le> col\<close> by (simp del: zero_le_mult_iff)
  ultimately show ?thesis by (simp add: mat_idx_def)
qed

lemma cell_idx_less:
  assumes "matrix_ok m" and "in_grid m row col"
  shows "cell_idx m row col < length (data m)"
  using cell_idx_bound [OF assms] assms(2) by (simp add: cell_idx_def in_grid_def nat_less_iff)

lemma mat_get_value_in:
  assumes "matrix_ok m" and "in_grid m row col"
  shows "mat_get_value m row col = Some (data m ! cell_idx m row col)"
  using cell_idx_bound [OF assms] assms(2) mat_idx_in [OF assms]
  by (simp add: mat_get_value_def buf_read_def cell_idx_def in_grid_def)

lemma mat_upd_in:
  assumes "matrix_ok m" and "in_grid m row col"
  shows "mat_upd m row col f
    = Some (m\<lparr>data := (data m)[cell_idx m row col := f (data m ! cell_idx m row col)]\<rparr>)"
  using cell_idx_bound [OF assms] assms(2) mat_idx_in [OF assms]
  by (simp add: mat_upd_def mat_get_value_def mat_set_value_def buf_read_def buf_write_def
      cell_idx_def in_grid_def)

section \<open>Drops and tails as cell updates\<close>

lemma mat_upd_None:
  "mat_upd m row col f = None \<Longrightarrow> mat_upd m row col g = None"
  by (auto simp add: mat_upd_def mat_get_value_def mat_set_value_def buf_read_def buf_write_def
      split: if_splits bind_splits)

lemma mat_upd_twice:
  "do { m' \<leftarrow> mat_upd m row col f; mat_upd m' row col g } = mat_upd m row col (g \<circ> f)"
proof (cases "mat_upd m row col f")
  case None
  then show ?thesis using mat_upd_None [OF None, of "g \<circ> f"] by simp
next
  case (Some m')
  then show ?thesis using mat_upd_compose [OF Some, of g] by simp
qed

lemma mat_put_cell_drop_upd:
  "mat_put_cell_drop m row col t
     = mat_upd m row col (\<lambda>v. val_new (val_get_ascii v) STATE_DROP (word_of_int t))"
proof -
  have "(\<lambda>v. val_new (val_get_ascii v) (val_get_state v) (word_of_int t))
        \<circ> (\<lambda>v. val_new (val_get_ascii v) STATE_DROP
                 (if STATE_DROP = STATE_NONE then 0 else val_get_tsize v))
      = (\<lambda>v. val_new (val_get_ascii v) STATE_DROP (word_of_int t))"
    by (simp add: fun_eq_iff val_get_state_new STATE_DROP_def STATE_NONE_def)
  then show ?thesis
    by (simp add: mat_put_cell_drop_def mat_set_state_upd mat_set_tsize_upd mat_upd_twice)
qed

lemma mat_set_tail_upd:
  "do { m' \<leftarrow> mat_set_state m row col STATE_TAIL; mat_set_tsize m' row col t }
     = mat_upd m row col (\<lambda>v. val_new (val_get_ascii v) STATE_TAIL t)"
proof -
  have "(\<lambda>v. val_new (val_get_ascii v) (val_get_state v) t)
        \<circ> (\<lambda>v. val_new (val_get_ascii v) STATE_TAIL
                 (if STATE_TAIL = STATE_NONE then 0 else val_get_tsize v))
      = (\<lambda>v. val_new (val_get_ascii v) STATE_TAIL t)"
    by (simp add: fun_eq_iff val_get_state_new STATE_TAIL_def STATE_NONE_def)
  then show ?thesis
    by (simp add: mat_set_state_upd mat_set_tsize_upd mat_upd_twice)
qed

lemma tail_color_range:
  assumes "1 \<le> i" and "i \<le> L" and "L \<le> 63"
  shows "1 \<le> \<lceil>(5 * of_int i / of_int L :: rat)\<rceil>" and "\<lceil>(5 * of_int i / of_int L :: rat)\<rceil> \<le> 5"
proof -
  have L: "(0::rat) < of_int L" using assms by simp
  have "(0::rat) < 5 * of_int i / of_int L" using assms L by simp
  then show "1 \<le> \<lceil>(5 * of_int i / of_int L :: rat)\<rceil>" by (simp add: less_ceiling_iff flip: zless_iff_Suc_zadd add1_zle_eq)
  have "rat_of_int i \<le> of_int L" using assms by simp
  then have "(5 * of_int i / of_int L :: rat) \<le> 5" using L by (simp add: pos_divide_le_eq)
  then show "\<lceil>(5 * of_int i / of_int L :: rat)\<rceil> \<le> 5" by (simp add: ceiling_le_iff)
qed

lemma mat_put_cell_tail_upd:
  assumes "1 \<le> i" and "i \<le> L" and "L \<le> 63"
  shows "mat_put_cell_tail m row col L i
     = mat_upd m row col (\<lambda>v. val_new (val_get_ascii v) STATE_TAIL
         (word_of_int \<lceil>(5 * of_int i / of_int L :: rat)\<rceil>))"
proof -
  have fi: "int_to_float i = of_int i" and fL: "int_to_float L = of_int L"
    using assms by (simp_all add: int_to_float_def to_float_of_int)
  have f5: "int_to_float (int NUM_COLORS - 1) = 5"
    using to_float_of_int [of 5] by (simp add: int_to_float_def NUM_COLORS_def colors_def)
  have Lnz: "rat_of_int L \<noteq> 0" using assms by simp
  have col: "\<lceil>float_mul 5 (to_float (of_int i / of_int L))\<rceil> = \<lceil>(5 * of_int i / of_int L :: rat)\<rceil>"
    unfolding float_mul_def by (rule tail_color_exact [OF assms])
  note r = tail_color_range [OF assms]
  have "c_int \<lceil>(5 * of_int i / of_int L :: rat)\<rceil> = Some \<lceil>(5 * of_int i / of_int L :: rat)\<rceil>"
    using r by (simp add: c_int_def)
  then show ?thesis
    using Lnz by (simp add: mat_put_cell_tail_def fi fL f5 float_div_def col mat_set_tail_upd)
qed

lemma placement_eval:
  "mat_add_drop (grid_10x1 [c0, c1, c2, c3, c4, c5, c6, c7, c8, c9]) 5 0 3
   = Some ((grid_10x1 [c0, c1, c2, c3, c4, c5, c6, c7, c8, c9])
       \<lparr>data := [val_new c0 STATE_NONE 0, val_new c1 STATE_NONE 0, val_new c2 STATE_TAIL 5,
                 val_new c3 STATE_TAIL 4, val_new c4 STATE_TAIL 2, val_new c5 STATE_DROP 3,
                 val_new c6 STATE_NONE 0, val_new c7 STATE_NONE 0, val_new c8 STATE_NONE 0,
                 val_new c9 STATE_NONE 0],
        drop_count := 1\<rparr>)"
proof -
  have c: "\<lceil>(5 / 3 :: rat)\<rceil> = 2" "\<lceil>(10 / 3 :: rat)\<rceil> = 4"
    by (rule ceiling_unique; simp)+
  show ?thesis
  by (simp add: c mat_add_drop_def mat_add_drop_loop.simps mat_put_cell_drop_upd
      mat_put_cell_tail_upd mat_upd_def mat_get_value_def mat_set_value_def mat_idx_def
      c_int_def buf_read_def buf_write_def grid_10x1_def)
qed

section \<open>Placement\<close>

lemma word8_of_small:
  assumes "0 \<le> c" and "c \<le> 63"
  shows "uint (word_of_int c :: 8 word) = c" and "(word_of_int c :: 8 word) \<le> 63"
proof -
  show u: "uint (word_of_int c :: 8 word) = c"
    using assms by (simp add: uint_word_of_int take_bit_int_eq_self)
  then show "(word_of_int c :: 8 word) \<le> 63"
    using assms by (simp add: word_le_def)
qed

lemma mat_get_after_upd:
  assumes "matrix_ok m" and "in_grid m row col" and "mat_upd m row col f = Some m'"
  shows "mat_get_value m' row col = Some (f (data m ! cell_idx m row col))"
proof -
  have m': "m' = m\<lparr>data := (data m)[cell_idx m row col := f (data m ! cell_idx m row col)]\<rparr>"
    using mat_upd_in [OF assms(1,2), of f] assms(3) by simp
  have ok: "matrix_ok m'" "in_grid m' row col"
    using assms(1,2) by (simp_all add: m' matrix_ok_def in_grid_def)
  have "cell_idx m' row col = cell_idx m row col" by (simp add: m' cell_idx_def)
  then show ?thesis
    using mat_get_value_in [OF ok] cell_idx_less [OF assms(1,2)] by (simp add: m')
qed

text \<open>
  Claim C3. Placing a drop at row 5 of column 0 with tail length 3 on an empty grid of
  10 rows and 1 column gives a DROP cell at row 5 and TAIL cells at rows 4, 3 and 2, whose
  colour indices (2, 4, 5) grow strictly from row 4 to row 2; no character changes and one
  drop is counted. For a tail length \<open>L\<close> up to 63 and a step \<open>i\<close> from 1 to \<open>L\<close>, the tail
  cell that \<^verbatim>\<open>mat_put_cell_tail\<close> writes has the colour index \<open>\<lceil>(NUM_COLORS - 1) * i / L\<rceil>\<close>,
  computed in single precision to that very value, and it lies between 0 and
  \<open>NUM_COLORS - 1\<close>.
\<close>

theorem placement_deterministic:
  assumes "matrix_ok m" and "in_grid m row col" and "1 \<le> i" and "i \<le> L" and "L \<le> 63"
  shows "(\<exists>m'. mat_add_drop (grid_10x1 [c0, c1, c2, c3, c4, c5, c6, c7, c8, c9]) 5 0 3 = Some m'
           \<and> map val_get_state (data m')
               = [STATE_NONE, STATE_NONE, STATE_TAIL, STATE_TAIL, STATE_TAIL, STATE_DROP,
                  STATE_NONE, STATE_NONE, STATE_NONE, STATE_NONE]
           \<and> map val_get_tsize (data m') = [0, 0, 5, 4, 2, 3, 0, 0, 0, 0]
           \<and> val_get_tsize (data m' ! 4) < val_get_tsize (data m' ! 3)
           \<and> val_get_tsize (data m' ! 3) < val_get_tsize (data m' ! 2)
           \<and> map val_get_ascii (data m') = [c0, c1, c2, c3, c4, c5, c6, c7, c8, c9]
           \<and> drop_count m' = 1)
       \<and> (\<exists>m' t. mat_put_cell_tail m row col L i = Some m'
           \<and> mat_get_state m' row col = Some STATE_TAIL
           \<and> mat_get_tsize m' row col = Some t
           \<and> uint t = \<lceil>(of_int (int NUM_COLORS - 1) * of_int i / of_int L :: rat)\<rceil>
           \<and> 0 \<le> uint t \<and> uint t \<le> int NUM_COLORS - 1)"
proof (rule conjI)
  show "\<exists>m'. mat_add_drop (grid_10x1 [c0, c1, c2, c3, c4, c5, c6, c7, c8, c9]) 5 0 3 = Some m'
           \<and> map val_get_state (data m')
               = [STATE_NONE, STATE_NONE, STATE_TAIL, STATE_TAIL, STATE_TAIL, STATE_DROP,
                  STATE_NONE, STATE_NONE, STATE_NONE, STATE_NONE]
           \<and> map val_get_tsize (data m') = [0, 0, 5, 4, 2, 3, 0, 0, 0, 0]
           \<and> val_get_tsize (data m' ! 4) < val_get_tsize (data m' ! 3)
           \<and> val_get_tsize (data m' ! 3) < val_get_tsize (data m' ! 2)
           \<and> map val_get_ascii (data m') = [c0, c1, c2, c3, c4, c5, c6, c7, c8, c9]
           \<and> drop_count m' = 1"
    unfolding placement_eval
    by (simp add: val_get_state_new val_get_tsize_new STATE_NONE_def STATE_TAIL_def STATE_DROP_def)
next
  define c where "c = \<lceil>(5 * of_int i / of_int L :: rat)\<rceil>"
  define t :: "8 word" where "t = word_of_int c"
  have c: "1 \<le> c" "c \<le> 5"
    unfolding c_def using tail_color_range [OF assms(3-5)] by simp_all
  then have t: "uint t = c" "t \<le> 63"
    unfolding t_def using word8_of_small [of c] by simp_all
  have n5: "int NUM_COLORS - 1 = 5" by (simp add: NUM_COLORS_def colors_def)
  have put: "mat_put_cell_tail m row col L i
      = mat_upd m row col (\<lambda>v. val_new (val_get_ascii v) STATE_TAIL t)"
    unfolding t_def c_def by (rule mat_put_cell_tail_upd [OF assms(3-5)])
  obtain m' where m': "mat_upd m row col (\<lambda>v. val_new (val_get_ascii v) STATE_TAIL t) = Some m'"
    using mat_upd_in [OF assms(1,2)] by simp
  have get: "mat_get_value m' row col
      = Some (val_new (val_get_ascii (data m ! cell_idx m row col)) STATE_TAIL t)"
    by (rule mat_get_after_upd [OF assms(1,2) m'])
  have r1: "mat_get_state m' row col = Some STATE_TAIL"
    by (simp add: mat_get_state_def get val_get_state_new STATE_TAIL_def)
  have r2: "mat_get_tsize m' row col = Some t"
    using t(2) by (simp add: mat_get_tsize_def get val_get_tsize_new take_bit_6_small)
  have r3: "uint t = \<lceil>(of_int (int NUM_COLORS - 1) * of_int i / of_int L :: rat)\<rceil>"
    using t(1) by (simp add: n5 c_def)
  have r4: "0 \<le> uint t" "uint t \<le> int NUM_COLORS - 1"
    using t(1) c by (simp_all add: n5)
  show "\<exists>m' t. mat_put_cell_tail m row col L i = Some m'
           \<and> mat_get_state m' row col = Some STATE_TAIL
           \<and> mat_get_tsize m' row col = Some t
           \<and> uint t = \<lceil>(of_int (int NUM_COLORS - 1) * of_int i / of_int L :: rat)\<rceil>
           \<and> 0 \<le> uint t \<and> uint t \<le> int NUM_COLORS - 1"
    using put m' r1 r2 r3 r4 by (intro exI [of _ m'] exI [of _ t] conjI) simp_all
qed

theorem placement_deterministic_witness:
  "matrix_ok (grid_10x1 [65, 66, 67, 68, 69, 70, 71, 72, 73, 74])
   \<and> in_grid (grid_10x1 [65, 66, 67, 68, 69, 70, 71, 72, 73, 74]) 4 0
   \<and> (1::int) \<le> 1 \<and> (1::int) \<le> 3 \<and> (3::int) \<le> 63
   \<and> (\<exists>m' t. mat_put_cell_tail (grid_10x1 [65, 66, 67, 68, 69, 70, 71, 72, 73, 74]) 4 0 3 1 = Some m'
        \<and> mat_get_state m' 4 0 = Some STATE_TAIL
        \<and> mat_get_tsize m' 4 0 = Some t
        \<and> uint t = 2)"
proof -
  have h1: "matrix_ok (grid_10x1 [65, 66, 67, 68, 69, 70, 71, 72, 73, 74])"
    by (simp add: matrix_ok_def grid_10x1_def)
  have h2: "in_grid (grid_10x1 [65, 66, 67, 68, 69, 70, 71, 72, 73, 74]) 4 0"
    by (simp add: in_grid_def grid_10x1_def)
  have h3: "(1::int) \<le> 1" and h4: "(1::int) \<le> 3" and h5: "(3::int) \<le> 63"
    by simp_all
  have c: "\<lceil>(5 / 3 :: rat)\<rceil> = 2"
    by (rule ceiling_unique; simp)
  show ?thesis
    using h1 h2 placement_deterministic [OF h1 h2 h3 h4 h5, THEN conjunct2] c
    by (auto simp add: NUM_COLORS_def colors_def)
qed

section \<open>The spawn phase of a tick\<close>

lemma to_float_floor_ceiling:
  assumes "0 \<le> x" and "x < 2 ^ 24"
  shows "of_int \<lfloor>x\<rfloor> \<le> to_float x" and "to_float x \<le> of_int \<lceil>x\<rceil>"
proof -
  have "of_int \<lfloor>x\<rfloor> \<le> to_float x \<and> to_float x \<le> of_int \<lceil>x\<rceil>"
  proof (cases "x = 0")
    case True
    then show ?thesis by (simp add: to_float_def)
  next
    case False
    then have "float_exp x \<le> 23" using assms by (intro float_exp_le) simp_all
    then have e: "float_exp x - 23 \<le> 0" by simp
    have "of_int \<lfloor>x\<rfloor> * 2 powi 0 \<le> to_float x"
      by (rule to_float_ge [OF _ e]) simp
    moreover have "to_float x \<le> of_int \<lceil>x\<rceil> * 2 powi 0"
      by (rule to_float_le [OF _ e]) simp
    ultimately show ?thesis by simp
  qed
  then show "of_int \<lfloor>x\<rfloor> \<le> to_float x" and "to_float x \<le> of_int \<lceil>x\<rceil>"
    by simp_all
qed

lemma trunc_to_float_between:
  assumes "0 \<le> x" and "x < 2 ^ 24"
  shows "\<lfloor>x\<rfloor> \<le> trunc (to_float x)" and "trunc (to_float x) \<le> \<lceil>x\<rceil>"
proof -
  note b = to_float_floor_ceiling [OF assms]
  have "(0::rat) \<le> of_int \<lfloor>x\<rfloor>" using assms(1) by simp
  with b(1) have nn: "0 \<le> to_float x" by linarith
  show "\<lfloor>x\<rfloor> \<le> trunc (to_float x)" using nn b(1) by (simp add: trunc_def le_floor_iff)
  have "\<lfloor>to_float x\<rfloor> \<le> \<lceil>x\<rceil>" using b(2) by (simp add: floor_le_iff)
  then show "trunc (to_float x) \<le> \<lceil>x\<rceil>" using nn by (simp add: trunc_def)
qed

lemma drops_to_add_exact:
  assumes rows: "0 < uint (rows m)"
    and des: "mat_update_drops_desired m = Some t"
    and le: "drop_count m \<le> t"
    and small: "uint t - uint (drop_count m) < 2 ^ 24"
  shows "mat_update_drops_to_add m
     = Some (word_of_int ((uint t - uint (drop_count m)) div uint (rows m)))"
    and "(uint t - uint (drop_count m)) div uint (rows m) < 2 ^ 24"
    and "0 \<le> (uint t - uint (drop_count m)) div uint (rows m)"
proof -
  define a where "a = uint t - uint (drop_count m)"
  define b where "b = uint (rows m)"
  have a0: "0 \<le> a" using le by (simp add: a_def word_le_def)
  have ua: "uint (t - drop_count m) = a"
    using le by (simp add: a_def uint_minus_simple_alt)
  have b16: "b < 2 ^ 24" using uint_lt2p [of "rows m"] by (simp add: b_def)
  have fa: "to_float (of_int a) = of_int a"
    using a0 small by (intro to_float_of_int) (simp add: a_def)
  have fb: "int_to_float b = of_int b"
    unfolding int_to_float_def using rows b16 by (intro to_float_of_int) (simp add: b_def)
  have fl: "\<lfloor>to_float (of_int a / of_int b)\<rfloor> = a div b"
    using a0 small rows b16 by (intro to_float_div_floor) (simp_all add: a_def b_def)
  have d0: "0 \<le> a div b" using a0 rows by (simp add: b_def pos_imp_zdiv_nonneg_iff)
  have d1: "a div b \<le> a"
    using zdiv_mono2 [of a 1 b] a0 rows by (simp add: b_def)
  show "(uint t - uint (drop_count m)) div uint (rows m) < 2 ^ 24"
    using d1 small by (simp add: a_def b_def)
  show "0 \<le> (uint t - uint (drop_count m)) div uint (rows m)"
    using d0 by (simp add: a_def b_def)
  have "0 \<le> \<lfloor>to_float (of_int a / of_int b)\<rfloor>" using fl d0 by simp
  then have "0 \<le> to_float (of_int a / of_int b)" by (simp add: zero_le_floor)
  then have tr: "trunc (to_float (of_int a / of_int b)) = a div b"
    using fl by (simp add: trunc_def)
  have "a div b < 2 ^ 64" using d1 small by (simp add: a_def)
  then have "float_to_size_t (to_float (of_int a / of_int b)) = Some (word_of_int (a div b))"
    using d0 by (simp add: float_to_size_t_def tr)
  moreover have "0 < b" using rows by (simp add: b_def)
  then have "rat_of_int b \<noteq> 0" by simp
  moreover have "(of_int (uint (t - drop_count m)) :: rat) = of_int a"
    by (simp only: ua)
  ultimately show "mat_update_drops_to_add m
     = Some (word_of_int ((uint t - uint (drop_count m)) div uint (rows m)))"
    using des fa fb
    by (simp add: mat_update_drops_to_add_def float_div_def a_def [symmetric] b_def [symmetric])
qed

lemma rand_int_pos: "rand_int mn mx rs k = Some (x, k') \<Longrightarrow> k' = Suc k"
  by (auto simp add: rand_int_def split: bind_splits)

lemma mat_update_spawn_rng:
  "mat_update_spawn m rs k n = Some (m', k') \<Longrightarrow> k' = k + 2 * n"
proof (induction n arbitrary: m k)
  case 0
  then show ?case by simp
next
  case (Suc n)
  from Suc.prems obtain col k1 t k2 m1 where
    "rand_int 0 (uint (cols m) - 1) rs k = Some (col, k1)"
    "rand_int TSIZE_MIN TSIZE_MAX rs k1 = Some (t, k2)"
    "mat_update_spawn m1 rs k2 n = Some (m', k')"
    by (auto split: bind_splits)
  then show ?case
    using Suc.IH [of m1 k2] by (auto dest!: rand_int_pos)
qed

lemma drops_desired_between:
  assumes des: "mat_update_drops_desired m = Some t"
    and ratio: "0 \<le> drop_ratio m" "drop_ratio m \<le> 1"
    and cells: "uint (cols m) * uint (rows m) < 2 ^ 24"
  shows "\<lfloor>of_int (uint (cols m) * uint (rows m)) * drop_ratio m\<rfloor> \<le> uint t"
    and "uint t \<le> \<lceil>of_int (uint (cols m) * uint (rows m)) * drop_ratio m\<rceil>"
proof -
  define n where "n = uint (cols m) * uint (rows m)"
  define x where "x = of_int n * drop_ratio m"
  have n0: "0 \<le> n" by (simp add: n_def)
  have n24: "n < 2 ^ 24" using cells by (simp add: n_def)
  have ci: "c_int n = Some n" using n0 n24 by (simp add: c_int_def)
  have fn: "int_to_float n = of_int n"
    unfolding int_to_float_def using n0 n24 by (intro to_float_of_int) simp
  have x0: "0 \<le> x" using n0 ratio by (simp add: x_def)
  have "x \<le> of_int n * 1" unfolding x_def using n0 ratio by (intro mult_left_mono) simp_all
  moreover have "rat_of_int n < 2 ^ 24" 
    using n24 by (metis of_int_less_iff of_int_numeral of_int_power)
  ultimately have x24: "x < 2 ^ 24" by simp
  note b = trunc_to_float_between [OF x0 x24]
  have f0: "0 \<le> \<lfloor>x\<rfloor>" using x0 by simp
  have "\<lceil>x\<rceil> \<le> 2 ^ 24" using x24 by (simp add: ceiling_le_iff)
  then have "\<lceil>x\<rceil> \<le> 16777216" by simp
  with b f0 have tr': "0 \<le> trunc (to_float x)" "trunc (to_float x) < 18446744073709551616"
    by linarith+
  then have tr: "0 \<le> trunc (to_float x)" "trunc (to_float x) < 2 ^ 64" by simp_all
  from des have "float_to_size_t (to_float x) = Some t"
    by (simp add: mat_update_drops_desired_def n_def [symmetric] ci fn float_mul_def x_def)
  then have "t = word_of_int (trunc (to_float x))"
    using tr by (simp add: float_to_size_t_def Let_def)
  then have "uint t = trunc (to_float x)"
    using tr by (simp add: uint_word_of_int take_bit_int_eq_self)
  then show "\<lfloor>of_int (uint (cols m) * uint (rows m)) * drop_ratio m\<rfloor> \<le> uint t"
    and "uint t \<le> \<lceil>of_int (uint (cols m) * uint (rows m)) * drop_ratio m\<rceil>"
    using b by (simp_all add: x_def n_def)
qed

text \<open>
  Claim C2, as amended. The target \<^verbatim>\<open>drops_desired\<close> is the single-precision product of
  the cell count and the ratio, truncated: for a ratio in [0,1] and fewer than \<open>2 ^ 24\<close>
  cells it lies between the floor and the ceiling of the exact product. When the drop count
  does not exceed the target (by \<open>2 ^ 24\<close> or more), the first loop of one tick runs
  exactly \<open>\<lfloor>(target - drop_count) / rows\<rfloor> + 1\<close> times, and a tick that returns has drawn two
  random numbers for each of these attempts.
\<close>

theorem spawn_attempts_truncated:
  assumes "0 < uint (rows m)"
    and "mat_update_drops_desired m = Some t"
    and "drop_count m \<le> t"
    and "uint t - uint (drop_count m) < 2 ^ 24"
  shows "mat_update_attempts m
       = Some (nat ((uint t - uint (drop_count m)) div uint (rows m)) + 1)
     \<and> (mat_update m rs k = Some (m', k')
          \<longrightarrow> k' = k + 2 * (nat ((uint t - uint (drop_count m)) div uint (rows m)) + 1))
     \<and> (0 \<le> drop_ratio m \<and> drop_ratio m \<le> 1 \<and> uint (cols m) * uint (rows m) < 2 ^ 24
          \<longrightarrow> \<lfloor>of_int (uint (cols m) * uint (rows m)) * drop_ratio m\<rfloor> \<le> uint t
              \<and> uint t \<le> \<lceil>of_int (uint (cols m) * uint (rows m)) * drop_ratio m\<rceil>)"
proof -
  define d where "d = (uint t - uint (drop_count m)) div uint (rows m)"
  note e = drops_to_add_exact [OF assms, folded d_def]
  have u: "uint (word_of_int d :: 64 word) = d"
    using e(2,3) by (simp add: uint_word_of_int take_bit_int_eq_self)
  then have "unat (word_of_int d :: 64 word) = nat d" by (simp add: unat_eq_nat_uint)
  moreover have "(word_of_int d :: 64 word) \<noteq> - 1"
  proof
    assume "(word_of_int d :: 64 word) = - 1"
    then have "uint (word_of_int d :: 64 word) = uint (- 1 :: 64 word)" by simp
    moreover have "uint (- 1 :: 64 word) = 2 ^ 64 - 1"
      by (simp add: unsigned_minus_1_eq_mask mask_eq_exp_minus_1)
    ultimately show False using u e(2) by simp
  qed
  ultimately have att: "mat_update_attempts m = Some (nat d + 1)"
    by (simp add: mat_update_attempts_def e(1))
  have "k' = k + 2 * (nat d + 1)" if "mat_update m rs k = Some (m', k')"
  proof -
    from that att obtain m1 where "mat_update_spawn m rs k (nat d + 1) = Some (m1, k')"
      by (auto simp add: mat_update_def split: bind_splits)
    then show ?thesis by (rule mat_update_spawn_rng)
  qed
  then show ?thesis
    using att drops_desired_between [OF assms(2)] by (simp add: d_def)
qed

lemma tick_16x2:
  "mat_update (blank_grid 2 16 0 (1 / 16)) (\<lambda>_. 3) 0
   = Some ((blank_grid 2 16 0 (1 / 16))
       \<lparr>data := (replicate 32 (val_new 32 STATE_NONE 0))
                  [3 := val_new 32 STATE_TAIL 1, 19 := val_new 32 STATE_DROP 11],
        drop_count := 2\<rparr>, 4)"
  by code_simp

theorem spawn_attempts_truncated_witness:
  "0 < uint (rows (blank_grid 2 16 0 (1 / 16)))
   \<and> mat_update_drops_desired (blank_grid 2 16 0 (1 / 16)) = Some 2
   \<and> drop_count (blank_grid 2 16 0 (1 / 16)) \<le> 2
   \<and> uint (2 :: 64 word) - uint (drop_count (blank_grid 2 16 0 (1 / 16))) < 2 ^ 24
   \<and> mat_update_attempts (blank_grid 2 16 0 (1 / 16)) = Some 2
   \<and> (\<exists>m'. mat_update (blank_grid 2 16 0 (1 / 16)) (\<lambda>_. 3) 0 = Some (m', 4))
   \<and> 0 \<le> drop_ratio (blank_grid 2 16 0 (1 / 16))
   \<and> drop_ratio (blank_grid 2 16 0 (1 / 16)) \<le> 1
   \<and> uint (cols (blank_grid 2 16 0 (1 / 16))) * uint (rows (blank_grid 2 16 0 (1 / 16))) < 2 ^ 24
   \<and> \<lfloor>of_int (uint (cols (blank_grid 2 16 0 (1 / 16))) * uint (rows (blank_grid 2 16 0 (1 / 16))))
        * drop_ratio (blank_grid 2 16 0 (1 / 16))\<rfloor> \<le> uint (2 :: 64 word)"
proof -
  define g where "g = blank_grid 2 16 0 (1 / 16)"
  have h1: "0 < uint (rows g)"
    by (simp add: g_def blank_grid_def)
  have h2: "mat_update_drops_desired g = Some 2"
    unfolding g_def by code_simp
  have h3: "drop_count g \<le> 2"
    by (simp add: g_def blank_grid_def)
  have h4: "uint (2 :: 64 word) - uint (drop_count g) < 2 ^ 24"
    by (simp add: g_def blank_grid_def)
  have h5: "0 \<le> drop_ratio g \<and> drop_ratio g \<le> 1 \<and> uint (cols g) * uint (rows g) < 2 ^ 24"
    by (simp add: g_def blank_grid_def)
  obtain m' where m': "mat_update g (\<lambda>_. 3) 0 = Some (m', 4)"
    unfolding g_def using tick_16x2 by blast
  have d: "nat ((uint (2 :: 64 word) - uint (drop_count g)) div uint (rows g)) + 1 = 2"
    by (simp add: g_def blank_grid_def)
  show ?thesis
    using h1 h2 h3 h4 h5 m' spawn_attempts_truncated [OF h1 h2 h3 h4, of "\<lambda>_. 3" 0 m' 4]
    unfolding d g_def [symmetric] by auto
qed

text \<open>
  Claim C2, as stated, fails twice. On 1 row of 24 columns with ratio 1/16 and no drop,
  the product 1.5 rounds to the target 2, for which the claim counts 3 attempts, where the
  code truncates it to 1 and makes 2. On 2 rows of 16 columns with ratio 1/16, the target is
  2; with 3 drops counted the unsigned difference wraps around to \<open>2 ^ 64 - 1\<close> and the loop
  is set to run \<open>2 ^ 63 + 1\<close> times.
\<close>

theorem spawn_attempts_counterexample:
  "spec_drops_target (blank_grid 1 24 0 (1 / 16)) = 2
   \<and> spec_spawn_attempts (blank_grid 1 24 0 (1 / 16)) = 3
   \<and> mat_update_attempts (blank_grid 1 24 0 (1 / 16)) = Some 2
   \<and> spec_drops_target (blank_grid 2 16 3 (1 / 16)) = 2
   \<and> drop_count (blank_grid 2 16 3 (1 / 16)) = 3
   \<and> mat_update_drops_to_add (blank_grid 2 16 3 (1 / 16)) = Some (2 ^ 63)
   \<and> mat_update_attempts (blank_grid 2 16 3 (1 / 16)) = Some (2 ^ 63 + 1)"
proof -
  have a: "mat_update_drops_to_add (blank_grid 1 24 0 (1 / 16)) = Some 1"
    by code_simp
  have b: "mat_update_drops_to_add (blank_grid 2 16 3 (1 / 16)) = Some (2 ^ 63)"
    by code_simp
  have "\<lfloor>(5 / 2 :: rat)\<rfloor> = 2"
    by (rule floor_unique; simp)
  then have r: "round (3 / 2 :: rat) = 2" "round (2 :: rat) = 2"
    by (simp_all add: round_def)
  have ta: "spec_drops_target (blank_grid 1 24 0 (1 / 16)) = 2"
    and tb: "spec_drops_target (blank_grid 2 16 3 (1 / 16)) = 2"
    by (simp_all add: r spec_drops_target_def blank_grid_def)
  have sa: "spec_spawn_attempts (blank_grid 1 24 0 (1 / 16)) = 3"
    by (simp add: spec_spawn_attempts_def ta) (simp add: blank_grid_def)
  have ca: "mat_update_attempts (blank_grid 1 24 0 (1 / 16)) = Some 2"
    and cb: "mat_update_attempts (blank_grid 2 16 3 (1 / 16)) = Some (2 ^ 63 + 1)"
    by (simp_all add: a b mat_update_attempts_def)
  have "drop_count (blank_grid 2 16 3 (1 / 16)) = 3"
    by (simp add: blank_grid_def)
  then show ?thesis
    using ta tb sa ca cb b by simp
qed

text \<open>
  Claim C1 fails on the code. On an empty grid of 2 rows and 16 columns with ratio 1/16,
  where the count 0 is exact, the tick makes two spawn attempts; when \<^verbatim>\<open>rand()\<close> returns 3
  both times they fall on column 3. \<^verbatim>\<open>mat_add_drop\<close> counts a drop for each, the second
  on the cell that is a DROP already: after the tick \<^verbatim>\<open>drop_count\<close> is 2 and the grid holds
  one DROP cell.
\<close>

theorem tick_counts_one_drop_twice:
  "drop_count (blank_grid 2 16 0 (1 / 16)) = 0
   \<and> count_drops (blank_grid 2 16 0 (1 / 16)) = 0
   \<and> map_option (\<lambda>(m', k'). (drop_count m', count_drops m'))
         (mat_update (blank_grid 2 16 0 (1 / 16)) (\<lambda>_. 3) 0) = Some (2, 1)"
proof -
  have "count_drops (blank_grid 2 16 0 (1 / 16)) = 0"
    by code_simp
  moreover have "count_drops ((blank_grid 2 16 0 (1 / 16))
       \<lparr>data := (replicate 32 (val_new 32 STATE_NONE 0))
                  [3 := val_new 32 STATE_TAIL 1, 19 := val_new 32 STATE_DROP 11],
        drop_count := 2\<rparr>) = 1"
    by code_simp
  ultimately show ?thesis
    by (simp add: tick_16x2) (simp add: blank_grid_def)
qed

section \<open>Filling the matrix\<close>

lemma c_rem_nonneg:
  assumes "0 \<le> a" and "0 < b"
  shows "c_rem a b = Some (a mod b)"
  using assms by (cases "a = 0") (simp_all add: c_rem_def)

lemma rand_ascii_eq:
  "rand_ascii rs k = Some (word_of_int (max 32 (int (rs k) mod 126)), Suc k)"
  by (simp add: rand_ascii_def rand_int_mincap_def c_rem_nonneg ASCII_MIN_def ASCII_MAX_def max_def)

lemma fill_cell_upd:
  assumes "mat_set_state m r c STATE_NONE = Some m1"
  shows "mat_set_ascii m1 r c a = mat_upd m r c (\<lambda>v. val_new a STATE_NONE 0)"
proof -
  have "(\<lambda>v. val_new a (val_get_state v) (val_get_tsize v))
        \<circ> (\<lambda>v. val_new (val_get_ascii v) STATE_NONE
                 (if STATE_NONE = STATE_NONE then 0 else val_get_tsize v))
      = (\<lambda>v. val_new a STATE_NONE 0)"
    by (simp add: fun_eq_iff val_get_state_new val_get_tsize_new STATE_NONE_def)
  then show ?thesis
    using mat_upd_compose [OF assms [unfolded mat_set_state_upd]]
    by (simp add: mat_set_ascii_upd)
qed

lemma matrix_ok_data:
  "matrix_ok m \<Longrightarrow> length d = length (data m) \<Longrightarrow> matrix_ok (m\<lparr>data := d\<rparr>)"
  by (simp add: matrix_ok_def)

lemma mat_fill_cols_correct:
  assumes "matrix_ok m" and "0 \<le> r" and "r < uint (rows m)" and "0 \<le> c"
    and "c + int n = uint (cols m)"
  shows "\<exists>m'. mat_fill_cols m r c rs k = Some (m', k + n)
     \<and> rows m' = rows m \<and> cols m' = cols m \<and> drop_count m' = drop_count m
     \<and> drop_ratio m' = drop_ratio m \<and> length (data m') = length (data m)
     \<and> (\<forall>i < length (data m). data m' ! i =
          (if cell_idx m r c \<le> i \<and> i < cell_idx m r c + n
           then val_new (word_of_int (max 32 (int (rs (k + (i - cell_idx m r c))) mod 126))) STATE_NONE 0
           else data m ! i))"
  using assms
proof (induction n arbitrary: m c k)
  case 0
  then show ?case by (subst mat_fill_cols.simps) auto
next
  case (Suc n)
  have ig: "in_grid m r c" using Suc.prems by (simp add: in_grid_def)
  define ix where "ix = cell_idx m r c"
  have ixl: "ix < length (data m)" unfolding ix_def by (rule cell_idx_less [OF Suc.prems(1) ig])
  define a :: "8 word" where "a = word_of_int (max 32 (int (rs k) mod 126))"
  define m2 where "m2 = m\<lparr>data := (data m)[ix := val_new a STATE_NONE 0]\<rparr>"
  obtain m1 where m1: "mat_set_state m r c STATE_NONE = Some m1"
    using mat_upd_in [OF Suc.prems(1) ig] by (simp add: mat_set_state_upd)
  have s2: "mat_set_ascii m1 r c a = Some m2"
    unfolding fill_cell_upd [OF m1] m2_def ix_def by (rule mat_upd_in [OF Suc.prems(1) ig])
  have ok2: "matrix_ok m2" unfolding m2_def using Suc.prems(1) by (intro matrix_ok_data) simp_all
  have fr2: "rows m2 = rows m" "cols m2 = cols m" "drop_count m2 = drop_count m"
    "drop_ratio m2 = drop_ratio m" "length (data m2) = length (data m)"
    by (simp_all add: m2_def)
  have ix2: "cell_idx m2 r (c + 1) = Suc ix"
    using Suc.prems(2,4) by (simp add: cell_idx_def ix_def m2_def nat_add_distrib)
  from Suc.IH [of m2 "c + 1" "Suc k"] ok2 Suc.prems fr2
  obtain m' where m': "mat_fill_cols m2 r (c + 1) rs (Suc k) = Some (m', Suc k + n)"
    "rows m' = rows m" "cols m' = cols m" "drop_count m' = drop_count m"
    "drop_ratio m' = drop_ratio m" "length (data m') = length (data m)"
    "\<forall>i < length (data m). data m' ! i =
          (if Suc ix \<le> i \<and> i < Suc ix + n
           then val_new (word_of_int (max 32 (int (rs (Suc k + (i - Suc ix))) mod 126))) STATE_NONE 0
           else data m2 ! i)"
    by (auto simp add: ix2)
  have step: "mat_fill_cols m r c rs k = Some (m', k + Suc n)"
    using Suc.prems(5) m1 s2 m'(1)
    by (subst mat_fill_cols.simps) (simp add: rand_ascii_eq a_def [symmetric])
  have cells: "data m' ! i =
          (if ix \<le> i \<and> i < ix + Suc n
           then val_new (word_of_int (max 32 (int (rs (k + (i - ix))) mod 126))) STATE_NONE 0
           else data m ! i)" if "i < length (data m)" for i
  proof (cases "i = ix")
    case True
    then show ?thesis using m'(7) that ixl by (simp add: m2_def a_def)
  next
    case False
    have "Suc k + (i - Suc ix) = k + (i - ix)" if "Suc ix \<le> i" using that by simp
    then show ?thesis using m'(7) \<open>i < length (data m)\<close> False
      by (auto simp add: m2_def)
  qed
  show ?case
    using step m'(2-6) cells unfolding ix_def by blast
qed


lemma mat_fill_rows_correct:
  assumes "matrix_ok m" and "0 \<le> r" and "r + int n = uint (rows m)"
  shows "\<exists>m'. mat_fill_rows m r rs k = Some (m', k + n * unat (cols m))
     \<and> rows m' = rows m \<and> cols m' = cols m \<and> drop_count m' = drop_count m
     \<and> drop_ratio m' = drop_ratio m \<and> length (data m') = length (data m)
     \<and> (\<forall>i < length (data m). data m' ! i =
          (if cell_idx m r 0 \<le> i
           then val_new (word_of_int (max 32 (int (rs (k + (i - cell_idx m r 0))) mod 126))) STATE_NONE 0
           else data m ! i))"
  using assms
proof (induction n arbitrary: m r k)
  case 0
  have "length (data m) = unat (rows m) * unat (cols m)"
    using "0.prems"(1) by (simp add: matrix_ok_def)
  moreover have "cell_idx m r 0 = unat (rows m) * unat (cols m)"
    using "0.prems"(3) by (simp add: cell_idx_def nat_mult_distrib)
  ultimately show ?case using "0.prems" by (subst mat_fill_rows.simps) auto
next
  case (Suc n)
  define nc where "nc = unat (cols m)"
  define ix where "ix = cell_idx m r 0"
  have rlt: "r < uint (rows m)" using Suc.prems by simp
  from mat_fill_cols_correct [OF Suc.prems(1,2) rlt, of 0 nc rs k]
  obtain m1 where m1: "mat_fill_cols m r 0 rs k = Some (m1, k + nc)"
    "rows m1 = rows m" "cols m1 = cols m" "drop_count m1 = drop_count m"
    "drop_ratio m1 = drop_ratio m" "length (data m1) = length (data m)"
    "\<forall>i < length (data m). data m1 ! i =
          (if ix \<le> i \<and> i < ix + nc
           then val_new (word_of_int (max 32 (int (rs (k + (i - ix))) mod 126))) STATE_NONE 0
           else data m ! i)"
    by (auto simp add: nc_def ix_def)
  have ok1: "matrix_ok m1" using Suc.prems(1) m1(2,3,6) by (simp add: matrix_ok_def)
  have ix1: "cell_idx m1 (r + 1) 0 = ix + nc"
    using Suc.prems(2) m1(3)
    by (simp add: cell_idx_def ix_def nc_def nat_add_distrib nat_mult_distrib algebra_simps)
  from Suc.IH [of m1 "r + 1" "k + nc"] ok1 Suc.prems m1(2-6)
  obtain m' where m': "mat_fill_rows m1 (r + 1) rs (k + nc) = Some (m', k + nc + n * nc)"
    "rows m' = rows m" "cols m' = cols m" "drop_count m' = drop_count m"
    "drop_ratio m' = drop_ratio m" "length (data m') = length (data m)"
    "\<forall>i < length (data m). data m' ! i =
          (if ix + nc \<le> i
           then val_new (word_of_int (max 32 (int (rs (k + nc + (i - (ix + nc)))) mod 126))) STATE_NONE 0
           else data m1 ! i)"
    by (auto simp add: ix1 nc_def)
  have step: "mat_fill_rows m r rs k = Some (m', k + Suc n * nc)"
    using rlt m1(1) m'(1) by (subst mat_fill_rows.simps) (simp add: algebra_simps)
  have cells: "data m' ! i =
          (if ix \<le> i
           then val_new (word_of_int (max 32 (int (rs (k + (i - ix))) mod 126))) STATE_NONE 0
           else data m ! i)" if "i < length (data m)" for i
  proof -
    have "k + nc + (i - (ix + nc)) = k + (i - ix)" if "ix + nc \<le> i" using that by simp
    then show ?thesis using m'(7) m1(7) \<open>i < length (data m)\<close> by auto
  qed
  show ?case
    using step m'(2-6) cells unfolding ix_def nc_def by blast
qed

text \<open>
  Claim C6, as amended. On a well-formed matrix \<^verbatim>\<open>mat_fill\<close> returns, having drawn one random
  number for each cell in row-major order, and leaves every cell with the state NONE, the
  tail size 0 and a character between 32 and 126: the value of \<^verbatim>\<open>rand()\<close> modulo 126,
  raised to 32 when it is below. The draw is not uniform.
\<close>

theorem fill_random_cells:
  assumes "matrix_ok m"
  shows "\<exists>m'. mat_fill m rs k = Some (m', k + length (data m))
     \<and> rows m' = rows m \<and> cols m' = cols m \<and> drop_count m' = drop_count m
     \<and> length (data m') = length (data m)
     \<and> (\<forall>i < length (data m).
          val_get_state (data m' ! i) = STATE_NONE
          \<and> val_get_tsize (data m' ! i) = 0
          \<and> uint (val_get_ascii (data m' ! i)) = max 32 (int (rs (k + i)) mod 126)
          \<and> ASCII_MIN \<le> uint (val_get_ascii (data m' ! i))
          \<and> uint (val_get_ascii (data m' ! i)) \<le> ASCII_MAX)"
proof -
  have len: "length (data m) = unat (rows m) * unat (cols m)"
    using assms by (simp add: matrix_ok_def)
  from mat_fill_rows_correct [OF assms, of 0 "unat (rows m)" rs k]
  obtain m' where m': "mat_fill_rows m 0 rs k = Some (m', k + unat (rows m) * unat (cols m))"
    "rows m' = rows m" "cols m' = cols m" "drop_count m' = drop_count m"
    "length (data m') = length (data m)"
    "\<forall>i < length (data m). data m' ! i =
       val_new (word_of_int (max 32 (int (rs (k + i)) mod 126))) STATE_NONE 0"
    by (auto simp add: cell_idx_def)
  have ch: "uint (word_of_int (max 32 (int r mod 126)) :: 8 word) = max 32 (int r mod 126)"
    "32 \<le> max 32 (int r mod 126)" "max 32 (int r mod 126) \<le> 126" for r
  proof -
    have "int r mod 126 < 126" by simp
    then have b: "0 \<le> max 32 (int r mod 126)" "max 32 (int r mod 126) < 2 ^ 8" by simp_all
    show "uint (word_of_int (max 32 (int r mod 126)) :: 8 word) = max 32 (int r mod 126)"
      unfolding uint_word_of_int using b by (simp add: take_bit_int_eq_self)
    show "32 \<le> max 32 (int r mod 126)" by simp
    show "max 32 (int r mod 126) \<le> 126" using \<open>int r mod 126 < 126\<close> by simp
  qed
  have "val_get_state (data m' ! i) = STATE_NONE
          \<and> val_get_tsize (data m' ! i) = 0
          \<and> uint (val_get_ascii (data m' ! i)) = max 32 (int (rs (k + i)) mod 126)
          \<and> ASCII_MIN \<le> uint (val_get_ascii (data m' ! i))
          \<and> uint (val_get_ascii (data m' ! i)) \<le> ASCII_MAX" if "i < length (data m)" for i
    using m'(6) that ch [of "rs (k + i)"]
    by (simp add: val_get_state_new val_get_tsize_new STATE_NONE_def ASCII_MIN_def ASCII_MAX_def)
  then have cells: "\<forall>i < length (data m).
          val_get_state (data m' ! i) = STATE_NONE
          \<and> val_get_tsize (data m' ! i) = 0
          \<and> uint (val_get_ascii (data m' ! i)) = max 32 (int (rs (k + i)) mod 126)
          \<and> ASCII_MIN \<le> uint (val_get_ascii (data m' ! i))
          \<and> uint (val_get_ascii (data m' ! i)) \<le> ASCII_MAX"
    by blast
  have "mat_fill m rs k = Some (m', k + length (data m))"
    using m'(1) len by (simp add: mat_fill_def)
  then show ?thesis
    using m'(2-5) cells by blast
qed

theorem fill_random_cells_witness:
  "matrix_ok grid_2x2
   \<and> (\<exists>m'. mat_fill grid_2x2 (\<lambda>n. 30 + n * 95) 0 = Some (m', 4)
        \<and> length (data m') = 4
        \<and> map val_get_state (data m') = [STATE_NONE, STATE_NONE, STATE_NONE, STATE_NONE]
        \<and> map val_get_tsize (data m') = [0, 0, 0, 0]
        \<and> map (\<lambda>v. uint (val_get_ascii v)) (data m') = [32, 125, 94, 63])"
proof -
  have h: "matrix_ok grid_2x2"
    by (simp add: matrix_ok_def grid_2x2_def)
  have l: "length (data grid_2x2) = 4"
    by (simp add: grid_2x2_def)
  from fill_random_cells [OF h, of "\<lambda>n. 30 + n * 95" 0]
  obtain m' where m': "mat_fill grid_2x2 (\<lambda>n. 30 + n * 95) 0 = Some (m', 4)"
    "length (data m') = 4"
    "\<forall>i < 4. val_get_state (data m' ! i) = STATE_NONE
          \<and> val_get_tsize (data m' ! i) = 0
          \<and> uint (val_get_ascii (data m' ! i)) = max 32 (int (30 + i * 95) mod 126)"
    unfolding l by auto
  have "\<forall>i < 4. P i \<Longrightarrow> P 0 \<and> P 1 \<and> P 2 \<and> P (3::nat)" for P
    by simp
  from this [OF m'(3)] m'(2) have "map val_get_state (data m') = [STATE_NONE, STATE_NONE, STATE_NONE, STATE_NONE]
        \<and> map val_get_tsize (data m') = [0, 0, 0, 0]
        \<and> map (\<lambda>v. uint (val_get_ascii v)) (data m') = [32, 125, 94, 63]"
    by (auto simp add: list_eq_iff_nth_eq less_Suc_eq numeral_eq_Suc)
  then show ?thesis using h m'(1,2) by auto
qed

text \<open>
  Claim C6, as stated, fails: the character is not drawn uniformly from [32,126]. Of the
  126 residues of \<^verbatim>\<open>rand()\<close> modulo 126, 33 give the character 32, one gives 33, and none
  gives 126.
\<close>

theorem fill_not_uniform_counterexample:
  "ascii_hits 32 = 33 \<and> ascii_hits 33 = 1 \<and> ascii_hits 126 = 0"
  by code_simp

section \<open>Glitches\<close>

lemma val_get_state_small: "take_bit 2 (val_get_state v) = val_get_state v"
  unfolding val_get_state_def BITMASK_STATE_def mask_state
  by (rule bit_word_eqI) (auto simp add: bit_simps dest: bit_imp_le_length)

lemma val_get_tsize_small: "take_bit 6 (val_get_tsize v) = val_get_tsize v"
  unfolding val_get_tsize_def BITMASK_TSIZE_def mask_tsize
  by (rule bit_word_eqI) (auto simp add: bit_simps dest: bit_imp_le_length)

lemma set_ascii_keeps:
  "val_get_state (val_new a (val_get_state v) (val_get_tsize v)) = val_get_state v"
  "val_get_tsize (val_new a (val_get_state v) (val_get_tsize v)) = val_get_tsize v"
  by (simp_all add: val_get_state_new val_get_tsize_new val_get_state_small val_get_tsize_small)

lemma mat_glitch_loop_correct:
  assumes "matrix_ok m" and "0 < uint (rows m)" and "0 < uint (cols m)" and "i + int n = num"
  shows "\<exists>m'. mat_glitch_loop m rs k num i = Some (m', k + 3 * n)
     \<and> map val_get_state (data m') = map val_get_state (data m)
     \<and> map val_get_tsize (data m') = map val_get_tsize (data m)
     \<and> drop_count m' = drop_count m \<and> rows m' = rows m \<and> cols m' = cols m
     \<and> drop_ratio m' = drop_ratio m"
  using assms
proof (induction n arbitrary: m k i)
  case 0
  then show ?case by (subst mat_glitch_loop.simps) simp
next
  case (Suc n)
  define row where "row = int (rs k) mod uint (rows m)"
  define col where "col = int (rs (Suc k)) mod uint (cols m)"
  define a :: "8 word" where "a = word_of_int (max 32 (int (rs (Suc (Suc k))) mod 126))"
  have cr: "c_rem (int (rs k)) (uint (rows m)) = Some row"
    and cc: "c_rem (int (rs (Suc k))) (uint (cols m)) = Some col"
    using Suc.prems(2,3) by (simp_all add: c_rem_nonneg row_def col_def)
  have ig: "in_grid m row col"
    using Suc.prems(2,3) by (simp add: in_grid_def row_def col_def)
  obtain m1 where m1: "mat_set_ascii m row col a = Some m1"
    using mat_upd_in [OF Suc.prems(1) ig] by (simp add: mat_set_ascii_upd)
  note u = m1 [unfolded mat_set_ascii_upd]
  note fr = mat_upd_frame [OF u]
  have st: "map val_get_state (data m1) = map val_get_state (data m)"
    by (rule mat_upd_map [OF u]) (rule set_ascii_keeps)
  have ts: "map val_get_tsize (data m1) = map val_get_tsize (data m)"
    by (rule mat_upd_map [OF u]) (rule set_ascii_keeps)
  have ok1: "matrix_ok m1" using Suc.prems(1) fr by (simp add: matrix_ok_def)
  from Suc.IH [of m1 "i + 1" "Suc (Suc (Suc k))"] ok1 Suc.prems fr
  obtain m' where m': "mat_glitch_loop m1 rs (Suc (Suc (Suc k))) num (i + 1)
        = Some (m', Suc (Suc (Suc k)) + 3 * n)"
    "map val_get_state (data m') = map val_get_state (data m1)"
    "map val_get_tsize (data m') = map val_get_tsize (data m1)"
    "drop_count m' = drop_count m1" "rows m' = rows m1" "cols m' = cols m1"
    "drop_ratio m' = drop_ratio m1"
    by auto
  have "mat_glitch_loop m rs k num i = Some (m', k + 3 * Suc n)"
    using Suc.prems(4) cr cc m1 m'(1)
    by (subst mat_glitch_loop.simps) (simp add: rand_ascii_eq a_def [symmetric])
  then show ?case using m'(2-7) st ts fr by simp
qed

lemma to_float_zero [simp]: "to_float 0 = 0"
  by (simp add: to_float_def)

lemma mat_glitch_num_zero:
  assumes "mat_glitch_num m fraction = Some num" and "uint (rows m) * uint (cols m) = 0 \<or> fraction = 0"
  shows "num = 0"
proof -
  define n where "n = uint (rows m) * uint (cols m)"
  have "float_mul fraction (int_to_float n) = 0"
  proof (cases "n = 0")
    case True
    then show ?thesis by (simp add: float_mul_def int_to_float_def)
  next
    case False
    with assms(2) have "fraction = 0" by (simp add: n_def)
    then show ?thesis by (simp add: float_mul_def)
  qed
  then show ?thesis
    using assms(1) unfolding mat_glitch_num_def n_def [symmetric]
    by (auto simp add: float_to_int_def trunc_def c_int_def split: bind_splits if_splits)
qed

lemma mat_glitch_num_between:
  assumes num: "mat_glitch_num m fraction = Some num"
    and f: "0 \<le> fraction" "fraction \<le> 1"
    and cells: "uint (rows m) * uint (cols m) < 2 ^ 24"
  shows "spec_glitch_count m fraction \<le> num"
    and "num \<le> \<lceil>fraction * of_int (uint (rows m)) * of_int (uint (cols m))\<rceil>"
proof -
  define n where "n = uint (rows m) * uint (cols m)"
  define x where "x = fraction * of_int n"
  have n0: "0 \<le> n" by (simp add: n_def)
  have n24: "n < 2 ^ 24" using cells by (simp add: n_def)
  have ci: "c_int n = Some n" using n0 n24 by (simp add: c_int_def)
  have fn: "int_to_float n = of_int n"
    unfolding int_to_float_def using n0 n24 by (intro to_float_of_int) simp
  have x0: "0 \<le> x" using n0 f by (simp add: x_def)
  have "x \<le> 1 * of_int n" unfolding x_def using n0 f by (intro mult_right_mono) simp_all
  moreover have "rat_of_int n < 2 ^ 24" 
    using n24 by (metis of_int_less_iff of_int_numeral of_int_power)
  ultimately have x24: "x < 2 ^ 24" by simp
  note b = trunc_to_float_between [OF x0 x24]
  from num have "c_int (trunc (to_float x)) = Some num"
    by (simp add: mat_glitch_num_def n_def [symmetric] ci fn float_mul_def x_def float_to_int_def)
  then have "num = trunc (to_float x)"
    by (simp add: c_int_def split: if_splits)
  moreover have "x = fraction * of_int (uint (rows m)) * of_int (uint (cols m))"
    by (simp add: x_def n_def)
  ultimately show "spec_glitch_count m fraction \<le> num"
    and "num \<le> \<lceil>fraction * of_int (uint (rows m)) * of_int (uint (cols m))\<rceil>"
    using b by (simp_all add: spec_glitch_count_def)
qed

text \<open>
  Claim C9, as amended. On a well-formed matrix, when the number \<^verbatim>\<open>num\<close> of glitches is
  defined, \<^verbatim>\<open>mat_glitch\<close> returns after exactly \<^verbatim>\<open>num\<close> draws (none when \<^verbatim>\<open>num\<close> is negative), each
  of three random numbers. \<^verbatim>\<open>num\<close> is the single-precision product of the fraction and the
  cell count, truncated: for a fraction in [0,1] and fewer than \<open>2 ^ 24\<close> cells it is the floor
  of the exact product or, when rounding reaches it, the next integer. The draws change no
  state, no tail size and no field of the matrix but the cell buffer; one draw writes one
  cell, keeping its state and tail size; a fraction of 0 leaves the matrix as it is.
\<close>

theorem glitch_keeps_state:
  assumes "matrix_ok m" and "mat_glitch_num m fraction = Some num"
  shows "(\<exists>m'. mat_glitch m fraction rs k = Some (m', k + 3 * nat num)
       \<and> map val_get_state (data m') = map val_get_state (data m)
       \<and> map val_get_tsize (data m') = map val_get_tsize (data m)
       \<and> drop_count m' = drop_count m \<and> rows m' = rows m \<and> cols m' = cols m
       \<and> drop_ratio m' = drop_ratio m)
     \<and> mat_glitch m 0 rs k = Some (m, k)
     \<and> (0 \<le> fraction \<and> fraction \<le> 1 \<and> uint (rows m) * uint (cols m) < 2 ^ 24
          \<longrightarrow> spec_glitch_count m fraction \<le> num
              \<and> num \<le> \<lceil>fraction * of_int (uint (rows m)) * of_int (uint (cols m))\<rceil>)
     \<and> (in_grid m row col
          \<longrightarrow> mat_set_ascii m row col a
              = Some (m\<lparr>data := (data m)[cell_idx m row col :=
                   val_new a (val_get_state (data m ! cell_idx m row col))
                     (val_get_tsize (data m ! cell_idx m row col))]\<rparr>))"
proof (intro conjI)
  show "\<exists>m'. mat_glitch m fraction rs k = Some (m', k + 3 * nat num)
       \<and> map val_get_state (data m') = map val_get_state (data m)
       \<and> map val_get_tsize (data m') = map val_get_tsize (data m)
       \<and> drop_count m' = drop_count m \<and> rows m' = rows m \<and> cols m' = cols m
       \<and> drop_ratio m' = drop_ratio m"
  proof (cases "0 < num")
    case False
    then have "mat_glitch_loop m rs k num 0 = Some (m, k)"
      by (subst mat_glitch_loop.simps) simp
    then show ?thesis using False assms(2) by (simp add: mat_glitch_def)
  next
    case True
    then have "uint (rows m) * uint (cols m) \<noteq> 0"
      using mat_glitch_num_zero [OF assms(2)] by auto
    then have pos: "0 < uint (rows m)" "0 < uint (cols m)"
      by (simp_all add: less_le)
    have "0 + int (nat num) = num" using True by simp
    from mat_glitch_loop_correct [OF assms(1) pos this, of rs k]
    show ?thesis using assms(2) by (simp add: mat_glitch_def)
  qed
next
  have s: "uint (rows m) * uint (cols m) < 2 ^ 31" by (rule matrix_ok_int(2) [OF assms(1)])
  have nn: "- (2 ^ 31) \<le> uint (rows m) * uint (cols m)"
  proof -
    have "- (2 ^ 31) \<le> (0::int)" by simp
    moreover have "0 \<le> uint (rows m) * uint (cols m)" by simp
    ultimately show ?thesis by (rule order_trans)
  qed
  have "c_int (uint (rows m) * uint (cols m)) = Some (uint (rows m) * uint (cols m))"
    using s nn by (simp add: c_int_def)
  then have "mat_glitch_num m 0 = Some 0"
    by (simp add: mat_glitch_num_def float_mul_def float_to_int_def trunc_def c_int_def)
  moreover have "mat_glitch_loop m rs k 0 0 = Some (m, k)"
    by (subst mat_glitch_loop.simps) simp
  ultimately show "mat_glitch m 0 rs k = Some (m, k)"
    by (simp add: mat_glitch_def)
next
  show "0 \<le> fraction \<and> fraction \<le> 1 \<and> uint (rows m) * uint (cols m) < 2 ^ 24
          \<longrightarrow> spec_glitch_count m fraction \<le> num
              \<and> num \<le> \<lceil>fraction * of_int (uint (rows m)) * of_int (uint (cols m))\<rceil>"
    using mat_glitch_num_between [OF assms(2)] by blast
next
  show "in_grid m row col
          \<longrightarrow> mat_set_ascii m row col a
              = Some (m\<lparr>data := (data m)[cell_idx m row col :=
                   val_new a (val_get_state (data m ! cell_idx m row col))
                     (val_get_tsize (data m ! cell_idx m row col))]\<rparr>)"
    using mat_upd_in [OF assms(1)] by (simp add: mat_set_ascii_upd)
qed


theorem glitch_keeps_state_witness:
  "matrix_ok (blank_grid 10 10 7 (1 / 16))
   \<and> mat_glitch_num (blank_grid 10 10 7 (1 / 16)) (16106127 / 536870912) = Some 3
   \<and> (\<exists>m'. mat_glitch (blank_grid 10 10 7 (1 / 16)) (16106127 / 536870912) (\<lambda>n. n) 0 = Some (m', 9)
        \<and> map val_get_state (data m') = map val_get_state (data (blank_grid 10 10 7 (1 / 16)))
        \<and> drop_count m' = 7)
   \<and> mat_glitch (blank_grid 10 10 7 (1 / 16)) 0 (\<lambda>n. n) 0 = Some (blank_grid 10 10 7 (1 / 16), 0)
   \<and> (0::rat) \<le> 16106127 / 536870912 \<and> (16106127 / 536870912 :: rat) \<le> 1
   \<and> uint (rows (blank_grid 10 10 7 (1 / 16))) * uint (cols (blank_grid 10 10 7 (1 / 16))) < 2 ^ 24
   \<and> spec_glitch_count (blank_grid 10 10 7 (1 / 16)) (16106127 / 536870912) \<le> 3
   \<and> in_grid (blank_grid 10 10 7 (1 / 16)) 1 2
   \<and> (\<exists>m1. mat_set_ascii (blank_grid 10 10 7 (1 / 16)) 1 2 65 = Some m1)"
proof -
  define g where "g = blank_grid 10 10 7 (1 / 16)"
  have h1: "matrix_ok g"
    by (simp add: g_def matrix_ok_def blank_grid_def)
  have h2: "mat_glitch_num g (16106127 / 536870912) = Some 3"
    unfolding g_def by code_simp
  have h3: "(0::rat) \<le> 16106127 / 536870912 \<and> (16106127 / 536870912 :: rat) \<le> 1
      \<and> uint (rows g) * uint (cols g) < 2 ^ 24"
    by (simp add: g_def blank_grid_def)
  have h4: "in_grid g 1 2"
    by (simp add: g_def in_grid_def blank_grid_def)
  have d: "drop_count g = 7"
    by (simp add: g_def blank_grid_def)
  show ?thesis
    unfolding g_def [symmetric]
    using h1 h2 h3 h4 d glitch_keeps_state [OF h1 h2, of "\<lambda>n. n" 0 1 2 65]
    by auto
qed

text \<open>
  Claim C9, as stated, fails on the number of draws. The \<^verbatim>\<open>float\<close> nearest to 0.03 is
  16106127 / 536870912, a little below 0.03. On 10 rows of 10 columns the floor of the
  exact product is 2; the single-precision product is rounded to 3.0, and \<^verbatim>\<open>mat_glitch\<close>
  makes 3 draws, of 9 random numbers.
\<close>

theorem glitch_count_counterexample:
  "to_float (3 / 100) = 16106127 / 536870912
   \<and> spec_glitch_count (blank_grid 10 10 0 (1 / 16)) (16106127 / 536870912) = 2
   \<and> mat_glitch_num (blank_grid 10 10 0 (1 / 16)) (16106127 / 536870912) = Some 3
   \<and> map_option snd (mat_glitch (blank_grid 10 10 0 (1 / 16)) (16106127 / 536870912) (\<lambda>n. n) 0)
       = Some 9"
  by code_simp

section \<open>The cell invariant\<close>

lemma cell_inv_upd:
  assumes "mat_upd m row col f = Some m'" and "cell_inv m"
    and "\<And>v. (val_get_state v = STATE_NONE \<longrightarrow> val_get_tsize v = 0)
           \<Longrightarrow> (val_get_state (f v) = STATE_NONE \<longrightarrow> val_get_tsize (f v) = 0)"
  shows "cell_inv m'"
  using mat_upd_pointwise [OF assms(1), of "\<lambda>v. val_get_state v = STATE_NONE \<longrightarrow> val_get_tsize v = 0"]
    assms(2,3)
  unfolding cell_inv_def by blast

lemma cell_inv_drop_count [simp]: "cell_inv (m\<lparr>drop_count := n\<rparr>) = cell_inv m"
  by (simp add: cell_inv_def)

lemma cell_inv_set_ascii:
  assumes "mat_set_ascii m row col a = Some m'" and "cell_inv m"
  shows "cell_inv m'"
  by (rule cell_inv_upd [OF assms(1) [unfolded mat_set_ascii_upd] assms(2)])
    (simp only: set_ascii_keeps)

lemma cell_inv_put_drop:
  assumes "mat_put_cell_drop m row col t = Some m'" and "cell_inv m"
  shows "cell_inv m'"
  by (rule cell_inv_upd [OF assms(1) [unfolded mat_put_cell_drop_upd] assms(2)])
    (simp add: val_get_state_new STATE_DROP_def STATE_NONE_def)

lemma cell_inv_put_tail:
  assumes "mat_put_cell_tail m row col t i = Some m'" and "cell_inv m"
  shows "cell_inv m'"
proof -
  from assms(1) obtain color where
    "do { m1 \<leftarrow> mat_set_state m row col STATE_TAIL; mat_set_tsize m1 row col (word_of_int color) }
       = Some m'"
    by (auto simp add: mat_put_cell_tail_def split: bind_splits)
  then have "mat_upd m row col (\<lambda>v. val_new (val_get_ascii v) STATE_TAIL (word_of_int color)) = Some m'"
    by (simp only: mat_set_tail_upd)
  then show ?thesis
    by (rule cell_inv_upd [OF _ assms(2)])
      (simp add: val_get_state_new STATE_TAIL_def STATE_NONE_def)
qed

lemma cell_inv_move:
  assumes "mat_set_state m row col s = Some m1" and "mat_set_tsize m1 row col t = Some m2"
    and "s = val_get_state w" and "s \<noteq> STATE_NONE \<or> t = 0" and "cell_inv m"
  shows "cell_inv m2"
proof -
  have "mat_upd m row col
      ((\<lambda>v. val_new (val_get_ascii v) (val_get_state v) t)
       \<circ> (\<lambda>v. val_new (val_get_ascii v) s (if s = STATE_NONE then 0 else val_get_tsize v)))
      = Some m2"
    using mat_upd_compose [OF assms(1) [unfolded mat_set_state_upd]] assms(2)
    by (simp add: mat_set_tsize_upd)
  then show ?thesis
  proof (rule cell_inv_upd [OF _ assms(5)])
    fix v
    have "val_get_state (val_new c (val_get_state (val_new c' s t')) t) = s" for c c' t'
      by (simp add: val_get_state_new assms(3) val_get_state_small)
    then show "val_get_state
          (((\<lambda>v. val_new (val_get_ascii v) (val_get_state v) t)
            \<circ> (\<lambda>v. val_new (val_get_ascii v) s (if s = STATE_NONE then 0 else val_get_tsize v))) v)
          = STATE_NONE \<longrightarrow>
        val_get_tsize
          (((\<lambda>v. val_new (val_get_ascii v) (val_get_state v) t)
            \<circ> (\<lambda>v. val_new (val_get_ascii v) s (if s = STATE_NONE then 0 else val_get_tsize v))) v)
          = 0"
      using assms(4) by (auto simp add: val_get_tsize_new)
  qed
qed

lemma cell_inv_glitch_loop:
  "mat_glitch_loop m rs k num i = Some (m', k') \<Longrightarrow> cell_inv m \<Longrightarrow> cell_inv m'"
proof (induction m rs k num i rule: mat_glitch_loop.induct)
  case (1 m rs k num i)
  show ?case
  proof (cases "i < num")
    case False
    with "1.prems" show ?thesis by (simp add: mat_glitch_loop.simps)
  next
    case True
    from "1.prems"(1) True obtain row col a k1 m1 where
      s: "c_rem (int (rs k)) (uint (rows m)) = Some row"
      "c_rem (int (rs (Suc k))) (uint (cols m)) = Some col"
      "rand_ascii rs (Suc (Suc k)) = Some (a, k1)"
      "mat_set_ascii m row col a = Some m1"
      "mat_glitch_loop m1 rs k1 num (i + 1) = Some (m', k')"
      by (subst (asm) mat_glitch_loop.simps) (auto split: bind_splits)
    have "cell_inv m1" by (rule cell_inv_set_ascii [OF s(4) "1.prems"(2)])
    with "1.IH" [OF True s(1,2,3) refl s(4,5)] show ?thesis .
  qed
qed

lemma cell_inv_add_drop_loop:
  "mat_add_drop_loop m row col t i = Some m' \<Longrightarrow> cell_inv m \<Longrightarrow> cell_inv m'"
proof (induction m row col t i rule: mat_add_drop_loop.induct)
  case (1 m row col t i)
  consider "\<not> i \<le> t \<or> row < 0" | "i \<le> t" "\<not> row < 0" "uint (rows m) \<le> row"
    | "i \<le> t" "\<not> row < 0" "\<not> uint (rows m) \<le> row" "i = 0"
    | "i \<le> t" "\<not> row < 0" "\<not> uint (rows m) \<le> row" "i \<noteq> 0"
    by blast
  then show ?case
  proof cases
    case 1
    with "1.prems" show ?thesis
      by (subst (asm) mat_add_drop_loop.simps) (auto split: if_splits)
  next
    case 2
    with "1.prems"(1) have "mat_add_drop_loop m (row - 1) col t (i + 1) = Some m'"
      by (subst (asm) mat_add_drop_loop.simps) simp
    with "1.IH"(1) [OF 2] "1.prems"(2) show ?thesis by simp
  next
    case 3
    with "1.prems"(1) obtain m1 where
      s: "mat_put_cell_drop m row col t = Some m1"
      "mat_add_drop_loop (m1\<lparr>drop_count := drop_count m1 + 1\<rparr>) (row - 1) col t (i + 1) = Some m'"
      by (subst (asm) mat_add_drop_loop.simps) (auto split: bind_splits)
    have "cell_inv (m1\<lparr>drop_count := drop_count m1 + 1\<rparr>)"
      using cell_inv_put_drop [OF s(1) "1.prems"(2)] by simp
    with "1.IH"(2) [OF 3 s(1) s(2)] show ?thesis .
  next
    case 4
    with "1.prems"(1) obtain m1 where
      s: "mat_put_cell_tail m row col t i = Some m1"
      "mat_add_drop_loop m1 (row - 1) col t (i + 1) = Some m'"
      by (subst (asm) mat_add_drop_loop.simps) (auto split: bind_splits)
    have "cell_inv m1" by (rule cell_inv_put_tail [OF s(1) "1.prems"(2)])
    with "1.IH"(3) [OF 4 s(1) s(2)] show ?thesis .
  qed
qed

lemma cell_inv_add_drop:
  "mat_add_drop m row col t = Some m' \<Longrightarrow> cell_inv m \<Longrightarrow> cell_inv m'"
  unfolding mat_add_drop_def by (rule cell_inv_add_drop_loop)

lemma cell_inv_rain_loop:
  "mat_rain_loop m rs k num i = Some (m', k') \<Longrightarrow> cell_inv m \<Longrightarrow> cell_inv m'"
proof (induction m rs k num i rule: mat_rain_loop.induct)
  case (1 m rs k num i)
  show ?case
  proof (cases "i < num")
    case False
    with "1.prems" show ?thesis by (simp add: mat_rain_loop.simps)
  next
    case True
    from "1.prems"(1) True obtain c k1 r k2 t k3 m1 where
      s: "rand_int 0 (uint (cols m) - 1) rs k = Some (c, k1)"
      "rand_int 0 (uint (rows m) - 1) rs k1 = Some (r, k2)"
      "rand_int TSIZE_MIN TSIZE_MAX rs k2 = Some (t, k3)"
      "mat_add_drop m r c t = Some m1"
      "mat_rain_loop m1 rs k3 num (i + 1) = Some (m', k')"
      by (subst (asm) mat_rain_loop.simps) (auto split: bind_splits)
    have "cell_inv m1" by (rule cell_inv_add_drop [OF s(4) "1.prems"(2)])
    with "1.IH" [OF True s(1) refl s(2) refl s(3) refl s(4,5)] show ?thesis .
  qed
qed

lemma cell_inv_spawn:
  "mat_update_spawn m rs k n = Some (m', k') \<Longrightarrow> cell_inv m \<Longrightarrow> cell_inv m'"
proof (induction n arbitrary: m k)
  case 0
  then show ?case by simp
next
  case (Suc n)
  from Suc.prems(1) obtain col k1 t k2 m1 where
    s: "mat_add_drop m 0 col t = Some m1" "mat_update_spawn m1 rs k2 n = Some (m', k')"
    by (auto split: bind_splits)
  have "cell_inv m1" by (rule cell_inv_add_drop [OF s(1) Suc.prems(2)])
  with Suc.IH [OF s(2)] show ?case .
qed


lemma cell_inv_mov_col_loop:
  "mat_mov_col_loop m col row ts tn st0 = Some (m', ts', tn', st') \<Longrightarrow> cell_inv m \<Longrightarrow> cell_inv m'"
proof (induction m col row ts tn st0 rule: mat_mov_col_loop.induct)
  case (1 m col row ts tn st0)
  show ?case
  proof (cases "0 \<le> row")
    case False
    with "1.prems" show ?thesis by (subst (asm) mat_mov_col_loop.simps) simp
  next
    case True
    with "1.prems"(1) obtain v where get: "mat_get_value m row col = Some v"
      by (subst (asm) mat_mov_col_loop.simps) (auto split: bind_splits)
    show ?thesis
    proof (cases "val_get_state v = STATE_NONE")
      case none: True
      from "1.prems"(1) True get none
      have "mat_mov_col_loop m col (row - 1) ts tn (val_get_state v) = Some (m', ts', tn', st')"
        by (subst (asm) mat_mov_col_loop.simps) simp
      from "1.IH"(1) [OF True get refl refl none this "1.prems"(2)] show ?thesis .
    next
      case some: False
      from "1.prems"(1) True get some obtain m1 m2 m3 m4 where
        s: "mat_set_state m (row + 1) col (val_get_state v) = Some m1"
        "mat_set_tsize m1 (row + 1) col (val_get_tsize v) = Some m2"
        "mat_set_state m2 row col STATE_NONE = Some m3"
        "mat_set_tsize m3 row col 0 = Some m4"
        and rest: "(if val_get_state v = STATE_DROP
            then mat_mov_col_loop m4 col (row - 1) (val_get_tsize v) 0 (val_get_state v)
            else if val_get_state v = STATE_TAIL \<and> 0 < ts
              then mat_mov_col_loop m4 col (row - 1) ts (tn + 1) (val_get_state v)
              else mat_mov_col_loop m4 col (row - 1) ts tn (val_get_state v))
          = Some (m', ts', tn', st')"
        by (subst (asm) mat_mov_col_loop.simps) (auto simp add: Let_def split: bind_splits)
      have "cell_inv m2"
        by (rule cell_inv_move [OF s(1,2) refl _ "1.prems"(2)]) (simp add: some)
      moreover have "STATE_NONE = val_get_state 0"
        by (simp add: val_get_state_def STATE_NONE_def)
      ultimately have inv4: "cell_inv m4"
        by (intro cell_inv_move [OF s(3,4)]) simp_all
      consider "val_get_state v = STATE_DROP"
        | "val_get_state v \<noteq> STATE_DROP" "val_get_state v = STATE_TAIL \<and> 0 < ts"
        | "val_get_state v \<noteq> STATE_DROP" "\<not> (val_get_state v = STATE_TAIL \<and> 0 < ts)"
        by blast
      then show ?thesis
      proof cases
        case 1
        with rest have "mat_mov_col_loop m4 col (row - 1) (val_get_tsize v) 0 (val_get_state v)
            = Some (m', ts', tn', st')" by simp
        from "1.IH"(2) [OF True get refl refl some s 1 this inv4] show ?thesis .
      next
        case 2
        with rest have "mat_mov_col_loop m4 col (row - 1) ts (tn + 1) (val_get_state v)
            = Some (m', ts', tn', st')" by simp
        from "1.IH"(3) [OF True get refl refl some s 2 this inv4] show ?thesis .
      next
        case 3
        with rest have "mat_mov_col_loop m4 col (row - 1) ts tn (val_get_state v)
            = Some (m', ts', tn', st')" by auto
        from "1.IH"(4) [OF True get refl refl some s 3 this inv4] show ?thesis .
      qed
    qed
  qed
qed

lemma cell_inv_mov_col:
  assumes "mat_mov_col m col = Some (m', d)" and "cell_inv m"
  shows "cell_inv m'"
proof -
  from assms(1) obtain m1 ts tn st where
    loop: "mat_mov_col_loop m col (uint (rows m) - 1) 0 0 STATE_NONE = Some (m1, ts, tn, st)"
    and fin: "(if st \<noteq> STATE_NONE \<and> tn < ts
          then mat_put_cell_tail m1 0 col (uint ts) (uint tn + 1) else Some m1) = Some m'"
    by (auto simp add: mat_mov_col_def Let_def split: bind_splits)
  have "cell_inv m1" by (rule cell_inv_mov_col_loop [OF loop assms(2)])
  then show ?thesis
    using fin by (auto split: if_splits intro: cell_inv_put_tail)
qed

lemma cell_inv_advance:
  "mat_update_advance m col = Some m' \<Longrightarrow> cell_inv m \<Longrightarrow> cell_inv m'"
proof (induction m col rule: mat_update_advance.induct)
  case (1 m col)
  show ?case
  proof (cases "col < uint (cols m)")
    case False
    with "1.prems" show ?thesis by (subst (asm) mat_update_advance.simps) simp
  next
    case True
    with "1.prems"(1) obtain m1 d where
      s: "mat_mov_col m col = Some (m1, d)"
      "mat_update_advance (m1\<lparr>drop_count := drop_count m1 - word_of_int d\<rparr>) (col + 1) = Some m'"
      by (subst (asm) mat_update_advance.simps) (auto split: bind_splits)
    have "cell_inv (m1\<lparr>drop_count := drop_count m1 - word_of_int d\<rparr>)"
      using cell_inv_mov_col [OF s(1) "1.prems"(2)] by simp
    with "1.IH" [OF True s(1) refl s(2)] show ?thesis .
  qed
qed

lemma cell_inv_update:
  assumes "mat_update m rs k = Some (m', k')" and "cell_inv m"
  shows "cell_inv m'"
proof -
  from assms(1) obtain n m1 k1 where
    "mat_update_spawn m rs k n = Some (m1, k1)" "mat_update_advance m1 0 = Some m'"
    by (auto simp add: mat_update_def split: bind_splits)
  then show ?thesis
    using assms(2) by (blast intro: cell_inv_spawn cell_inv_advance)
qed

lemma cell_inv_rain:
  assumes "mat_rain m rs k = Some (m', k')" and "cell_inv m"
  shows "cell_inv m'"
  using assms by (auto simp add: mat_rain_def split: bind_splits intro: cell_inv_rain_loop)

lemma cell_inv_glitch:
  assumes "mat_glitch m fraction rs k = Some (m', k')" and "cell_inv m"
  shows "cell_inv m'"
  using assms by (auto simp add: mat_glitch_def split: bind_splits intro: cell_inv_glitch_loop)

lemma cell_inv_created:
  assumes "mat_init m0 nrows ncols ratio (Some buf) = (m1, 0)"
    and "length buf = unat nrows * unat ncols" and "unat nrows * unat ncols < 2 ^ 31"
    and "mat_fill m1 rs k = Some (m, k')"
  shows "cell_inv m"
proof -
  have m1: "m1 = m0\<lparr>data := buf, rows := nrows, cols := ncols, drop_count := 0, drop_ratio := ratio\<rparr>"
    using assms(1) by (simp add: mat_init_def)
  have ok: "matrix_ok m1" using assms(2,3) by (simp add: m1 matrix_ok_def)
  from mat_fill_rows_correct [OF ok, of 0 "unat (rows m1)" rs k] assms(4)
  have cells: "\<forall>i < length (data m1). data m ! i =
       val_new (word_of_int (max 32 (int (rs (k + i)) mod 126))) STATE_NONE 0"
    and len: "length (data m) = length (data m1)"
    by (auto simp add: cell_idx_def mat_fill_def)
  show ?thesis
    unfolding cell_inv_def
  proof (intro ballI impI)
    fix v assume "v \<in> set (data m)"
    then obtain i where "i < length (data m)" "v = data m ! i"
      by (auto simp add: in_set_conv_nth)
    then have "v = val_new (word_of_int (max 32 (int (rs (k + i)) mod 126))) STATE_NONE 0"
      using cells len by simp
    then show "val_get_tsize v = 0" by (simp add: val_get_tsize_new)
  qed
qed

lemma mat_get_after_set_none:
  assumes "mat_set_state m row col STATE_NONE = Some m'"
  shows "mat_get_state m' row col = Some STATE_NONE" and "mat_get_tsize m' row col = Some 0"
proof -
  have z: "val_get_state 0 = STATE_NONE" "val_get_tsize 0 = 0"
    by (simp_all add: val_get_state_def val_get_tsize_def STATE_NONE_def)
  have n: "val_get_state (val_new c STATE_NONE 0) = STATE_NONE"
    "val_get_tsize (val_new c STATE_NONE 0) = 0" for c
    by (simp_all add: val_get_state_new val_get_tsize_new STATE_NONE_def)
  from assms have "mat_get_value m' row col = Some 0
      \<or> (\<exists>c. mat_get_value m' row col = Some (val_new c STATE_NONE 0))"
    by (auto simp add: mat_set_state_def mat_get_value_def mat_set_value_def mat_idx_def
        buf_read_def buf_write_def split: if_splits bind_splits)
  then show "mat_get_state m' row col = Some STATE_NONE" and "mat_get_tsize m' row col = Some 0"
    using z n by (auto simp add: mat_get_state_def mat_get_tsize_def)
qed

text \<open>
  Claim C8. In every matrix that the program can reach, a cell whose state is NONE has the
  tail size 0: \<^verbatim>\<open>mat_fill\<close> establishes it, and placements, advances, glitches and whole
  ticks keep it. Setting the state of a cell to NONE sets its tail size to 0.
\<close>

theorem none_cells_have_no_aux:
  assumes "reachable m"
  shows "cell_inv m
     \<and> (mat_set_state m row col STATE_NONE = Some m'
          \<longrightarrow> mat_get_state m' row col = Some STATE_NONE \<and> mat_get_tsize m' row col = Some 0)"
proof
  from assms show "cell_inv m"
  proof induction
    case (created m0 nrows ncols ratio buf m1 rs k m k')
    then show ?case by (rule cell_inv_created)
  next
    case (rained m rs k m' k')
    then show ?case by (blast intro: cell_inv_rain)
  next
    case (glitched m fraction rs k m' k')
    then show ?case by (blast intro: cell_inv_glitch)
  next
    case (updated m rs k m' k')
    then show ?case by (blast intro: cell_inv_update)
  next
    case (placed m row col tsize m')
    then show ?case by (blast intro: cell_inv_add_drop)
  next
    case (advanced m m')
    then show ?case by (blast intro: cell_inv_advance)
  qed
  show "mat_set_state m row col STATE_NONE = Some m'
          \<longrightarrow> mat_get_state m' row col = Some STATE_NONE \<and> mat_get_tsize m' row col = Some 0"
    using mat_get_after_set_none by blast
qed

lemma reachable_grid_placed: "reachable grid_placed"
proof -
  have i: "mat_init grid_2x2 2 2 (1 / 16) (Some [1, 2, 3, 4])
      = (\<lparr>data = [1, 2, 3, 4], cols = 2, rows = 2, drop_count = 0, drop_ratio = 1 / 16\<rparr>, 0)"
    by (simp add: mat_init_def grid_2x2_def)
  have f: "mat_fill \<lparr>data = [1, 2, 3, 4], cols = 2, rows = 2, drop_count = 0, drop_ratio = 1 / 16\<rparr>
      (\<lambda>n. 30 + n * 95) 0 = Some (grid_filled, 4)"
    by code_simp
  have "reachable grid_filled"
    by (rule reachable.created [OF i _ _ f]) simp_all
  moreover have "mat_add_drop grid_filled 1 0 8 = Some grid_placed"
    by code_simp
  ultimately show ?thesis by (rule reachable.placed)
qed

theorem none_cells_have_no_aux_witness:
  "reachable grid_placed
   \<and> cell_inv grid_placed
   \<and> mat_set_state grid_placed 1 0 STATE_NONE
       = Some (grid_placed\<lparr>data := [val_new 32 STATE_TAIL 1, val_new 125 STATE_NONE 0,
                                    val_new 94 STATE_NONE 0, val_new 63 STATE_NONE 0]\<rparr>)
   \<and> mat_get_state (grid_placed\<lparr>data := [val_new 32 STATE_TAIL 1, val_new 125 STATE_NONE 0,
                                    val_new 94 STATE_NONE 0, val_new 63 STATE_NONE 0]\<rparr>) 1 0
       = Some STATE_NONE
   \<and> mat_get_tsize (grid_placed\<lparr>data := [val_new 32 STATE_TAIL 1, val_new 125 STATE_NONE 0,
                                    val_new 94 STATE_NONE 0, val_new 63 STATE_NONE 0]\<rparr>) 1 0
       = Some 0
   \<and> val_get_state (data grid_placed ! 1) = STATE_NONE"
proof -
  have s: "mat_set_state grid_placed 1 0 STATE_NONE
       = Some (grid_placed\<lparr>data := [val_new 32 STATE_TAIL 1, val_new 125 STATE_NONE 0,
                                    val_new 94 STATE_NONE 0, val_new 63 STATE_NONE 0]\<rparr>)"
    by code_simp
  have n: "val_get_state (data grid_placed ! 1) = STATE_NONE"
    by code_simp
  show ?thesis
    using reachable_grid_placed s n
      none_cells_have_no_aux [OF reachable_grid_placed, of 1 0
        "grid_placed\<lparr>data := [val_new 32 STATE_TAIL 1, val_new 125 STATE_NONE 0,
                                    val_new 94 STATE_NONE 0, val_new 63 STATE_NONE 0]\<rparr>"]
    by simp
qed

end
